theory Spec2Isabelle
  imports Main
begin

section \<open>Data model of \<open>src/index.tsx\<close>\<close>

text \<open>
  The board has \<open>COLS\<close> columns and \<open>ROWS\<close> rows. A gem carries an id, its
  coordinates, its kind (one of the six entries of \<open>TYPES\<close>) and the two optional
  presentation flags. The record fields are the source's \<open>id\<close>, \<open>x\<close>, \<open>y\<close> and
  \<open>type\<close>, prefixed with \<open>g\<close> so that they do not capture the variables of the
  statements below. Coordinates are integers: the refill writes negative rows.
\<close>

definition COLS :: nat where
  "COLS = 8"

definition ROWS :: nat where
  "ROWS = 8"

datatype kind = Apple | Orange | Grape | Coconut | Kiwi | Lemon

definition TYPES :: "kind list" where
  "TYPES = [Apple, Orange, Grape, Coconut, Kiwi, Lemon]"

record Gem =
  gid :: nat
  gx :: int
  gy :: int
  gtype :: kind
  isMatch :: "bool option"
  isNew :: "bool option"

text \<open>
  The component state of \<open>App\<close> together with the module counter \<open>gemIdCounter\<close>.
  \<open>getRandomType\<close> reads \<open>Math.random\<close>; the model is given the sequence
  \<open>draws\<close> of the kinds that the successive calls of \<open>getRandomType\<close> return, and
  \<open>rngPos\<close> counts the calls made so far. The particle list is presentation only and
  is left out.
\<close>

record State =
  gems :: "Gem list"
  score :: int
  selectedId :: "nat option"
  isProcessing :: bool
  isPaused :: bool
  gemIdCounter :: nat
  rngPos :: nat

text \<open>
  Reading a property of \<open>undefined\<close> throws a \<open>TypeError\<close>; the functions that can do
  so return a sum, \<open>Inl\<close> the error.
\<close>

datatype error = TypeError

definition getRandomType :: "(nat \<Rightarrow> kind) \<Rightarrow> State \<Rightarrow> kind \<times> State" where
  "getRandomType draws s = (draws (rngPos s), s\<lparr>rngPos := rngPos s + 1\<rparr>)"

definition createGem :: "(nat \<Rightarrow> kind) \<Rightarrow> int \<Rightarrow> int \<Rightarrow> kind option \<Rightarrow> State \<Rightarrow> Gem \<times> State" where
  "createGem draws x y t s =
     (let i = gemIdCounter s;
          s1 = s\<lparr>gemIdCounter := i + 1\<rparr>;
          (k, s2) = (case t of Some k \<Rightarrow> (k, s1) | None \<Rightarrow> getRandomType draws s1)
      in (\<lparr>gid = i, gx = x, gy = y, gtype = k, isMatch = None, isNew = Some True\<rparr>, s2))"

section \<open>Match detection\<close>

definition getGemAt :: "int \<Rightarrow> int \<Rightarrow> Gem list \<Rightarrow> Gem option" where
  "getGemAt x y currentGems = find (\<lambda>g. gx g = x \<and> gy g = y) currentGems"

text \<open>
  \<open>matches\<close> is a JavaScript \<open>Set\<close> of ids: a list without repetition in insertion
  order, its \<open>size\<close> the length of the list.
\<close>

definition set_add :: "nat list \<Rightarrow> nat \<Rightarrow> nat list" where
  "set_add ms i = (if i \<in> set ms then ms else ms @ [i])"

text \<open>
  The horizontal and the vertical pass run the same loop body along a line of cells:
  \<open>line k\<close> is the gem found at index \<open>k\<close> of the row (or column) and \<open>lim\<close> is
  \<open>COLS\<close> (or \<open>ROWS\<close>). \<open>extendRun\<close> is the inner \<open>while (k < lim)\<close> loop.
\<close>

function extendRun :: "(nat \<Rightarrow> Gem option) \<Rightarrow> nat \<Rightarrow> kind \<Rightarrow> nat \<Rightarrow> nat list \<Rightarrow> nat list" where
  "extendRun line lim t k ms =
     (if k < lim then
        (case line k of
           None \<Rightarrow> ms
         | Some next \<Rightarrow>
             if gtype next = t then extendRun line lim t (k + 1) (set_add ms (gid next)) else ms)
      else ms)"
  by pat_completeness auto
termination
  by (relation "measure (\<lambda>(line, lim, t, k, ms). lim - k)") auto

declare extendRun.simps [simp del]

definition checkRun :: "(nat \<Rightarrow> Gem option) \<Rightarrow> nat \<Rightarrow> nat \<Rightarrow> nat list \<Rightarrow> nat list" where
  "checkRun line lim i ms =
     (case line i of
        None \<Rightarrow> ms
      | Some g1 \<Rightarrow>
         (case line (i + 1) of
            None \<Rightarrow> ms
          | Some g2 \<Rightarrow>
             (case line (i + 2) of
                None \<Rightarrow> ms
              | Some g3 \<Rightarrow>
                  if gtype g1 = gtype g2 \<and> gtype g1 = gtype g3 then
                    extendRun line lim (gtype g1) (i + 3)
                      (set_add (set_add (set_add ms (gid g1)) (gid g2)) (gid g3))
                  else ms)))"

definition hline :: "Gem list \<Rightarrow> nat \<Rightarrow> nat \<Rightarrow> Gem option" where
  "hline currentGems y k = getGemAt (int k) (int y) currentGems"

definition vline :: "Gem list \<Rightarrow> nat \<Rightarrow> nat \<Rightarrow> Gem option" where
  "vline currentGems x k = getGemAt (int x) (int k) currentGems"

definition findMatches :: "Gem list \<Rightarrow> nat list" where
  "findMatches currentGems =
     (let horizontal =
            fold (\<lambda>y. fold (checkRun (hline currentGems y) COLS) [0..<COLS - 2]) [0..<ROWS] []
      in fold (\<lambda>x. fold (checkRun (vline currentGems x) ROWS) [0..<ROWS - 2]) [0..<COLS]
           horizontal)"

section \<open>Cascade resolution\<close>

text \<open>
  One column of the rebuild loop of \<open>processBoard\<close>: the surviving gems of the column
  are sorted by row (the sort is stable), \<open>missing\<close> fresh gems are created at rows
  \<open>i - missing\<close>, and the survivors are stacked at rows \<open>index + missing\<close>.
\<close>

fun spawnGems :: "(nat \<Rightarrow> kind) \<Rightarrow> int \<Rightarrow> int \<Rightarrow> nat list \<Rightarrow> Gem list \<times> State \<Rightarrow> Gem list \<times> State" where
  "spawnGems draws x missing [] acc = acc"
| "spawnGems draws x missing (i # is) (newGems, s) =
     (let (g, s') = createGem draws x (int i - missing) None s
      in spawnGems draws x missing is (newGems @ [g\<lparr>isNew := Some True\<rparr>], s'))"

definition moveExisting :: "int \<Rightarrow> Gem list \<Rightarrow> Gem list" where
  "moveExisting missing column =
     map (\<lambda>(index, g). g\<lparr>gy := int index + missing, isMatch := Some False\<rparr>)
       (enumerate 0 column)"

definition rebuildColumn :: "(nat \<Rightarrow> kind) \<Rightarrow> Gem list \<Rightarrow> nat \<Rightarrow> Gem list \<times> State \<Rightarrow> Gem list \<times> State" where
  "rebuildColumn draws remainingGems x acc =
     (let column = sort_key gy (filter (\<lambda>g. gx g = int x) remainingGems);
          count = length column;
          missing = int ROWS - int count;
          (newGems, s) = spawnGems draws (int x) missing [0..<nat missing] acc
      in (newGems @ moveExisting missing column, s))"

definition applyGravity :: "(nat \<Rightarrow> kind) \<Rightarrow> Gem list \<Rightarrow> State \<Rightarrow> error + Gem list \<times> State" where
  "applyGravity draws remainingGems s =
     (if \<exists>g \<in> set remainingGems. gx g < 0 \<or> int COLS \<le> gx g then Inl TypeError
      else Inr (fold (rebuildColumn draws remainingGems) [0..<COLS] ([], s)))"

definition markMatched :: "nat list \<Rightarrow> Gem list \<Rightarrow> Gem list" where
  "markMatched matchedIds gs =
     map (\<lambda>g. if gid g \<in> set matchedIds then g\<lparr>isMatch := Some True\<rparr> else g) gs"

definition removeMatched :: "nat list \<Rightarrow> Gem list \<Rightarrow> Gem list" where
  "removeMatched matchedIds currentGems = filter (\<lambda>g. gid g \<notin> set matchedIds) currentGems"

text \<open>
  One round of \<open>processBoard\<close>, entered when the detection found a match: the score
  is raised, the matched gems are marked in the displayed list and removed from the
  layout, gravity and refill build \<open>newGems\<close>, which is displayed and handed to the
  next round.
\<close>

definition cascadeRound ::
  "(nat \<Rightarrow> kind) \<Rightarrow> State \<Rightarrow> Gem list \<Rightarrow> int \<Rightarrow> error + State \<times> Gem list" where
  "cascadeRound draws s1 currentGems multiplier =
     (let matchedIds = findMatches currentGems;
          s2 = s1\<lparr>score := score s1 + int (length matchedIds) * 10 * multiplier\<rparr>;
          s3 = s2\<lparr>gems := markMatched matchedIds (gems s2)\<rparr>;
          remainingGems = removeMatched matchedIds currentGems
      in case applyGravity draws remainingGems s3 of
           Inl e \<Rightarrow> Inl e
         | Inr (newGems, s4) \<Rightarrow> Inr (s4\<lparr>gems := newGems\<rparr>, newGems))"

text \<open>
  \<open>processBoard\<close> calls itself after every round with a match and has no bound on the
  number of rounds: it is a partial function, \<open>None\<close> when it never returns.
\<close>

partial_function (option) processBoard ::
  "(nat \<Rightarrow> kind) \<Rightarrow> State \<Rightarrow> Gem list \<Rightarrow> int \<Rightarrow> (error + State) option" where
  "processBoard draws s currentGems multiplier =
     (let s1 = s\<lparr>isProcessing := True\<rparr>
      in if length (findMatches currentGems) = 0 then Some (Inr (s1\<lparr>isProcessing := False\<rparr>))
         else
           (case cascadeRound draws s1 currentGems multiplier of
              Inl e \<Rightarrow> Some (Inl e)
            | Inr (s5, newGems) \<Rightarrow> processBoard draws s5 newGems (multiplier + 1)))"

declare processBoard.simps [code]

section \<open>Swapping and selection\<close>

fun swapCoords :: "Gem option \<Rightarrow> Gem option \<Rightarrow> nat \<Rightarrow> nat \<Rightarrow> Gem list \<Rightarrow> error + Gem list" where
  "swapCoords g1 g2 id1 id2 [] = Inr []"
| "swapCoords g1 g2 id1 id2 (g # gs) =
     (case (if gid g = id1 then
              (case g2 of None \<Rightarrow> Inl TypeError | Some b \<Rightarrow> Inr (g\<lparr>gx := gx b, gy := gy b\<rparr>))
            else if gid g = id2 then
              (case g1 of None \<Rightarrow> Inl TypeError | Some a \<Rightarrow> Inr (g\<lparr>gx := gx a, gy := gy a\<rparr>))
            else Inr g) of
        Inl e \<Rightarrow> Inl e
      | Inr g' \<Rightarrow> (case swapCoords g1 g2 id1 id2 gs of Inl e \<Rightarrow> Inl e | Inr gs' \<Rightarrow> Inr (g' # gs')))"

definition swapLayout :: "State \<Rightarrow> nat \<Rightarrow> nat \<Rightarrow> error + Gem list" where
  "swapLayout s id1 id2 =
     (let g1 = find (\<lambda>g. gid g = id1) (gems s);
          g2 = find (\<lambda>g. gid g = id2) (gems s)
      in swapCoords g1 g2 id1 id2 (gems s))"

definition handleSwap :: "(nat \<Rightarrow> kind) \<Rightarrow> State \<Rightarrow> nat \<Rightarrow> nat \<Rightarrow> (error + State) option" where
  "handleSwap draws s id1 id2 =
     (let s1 = s\<lparr>isProcessing := True, selectedId := None\<rparr>
      in case swapLayout s id1 id2 of
           Inl e \<Rightarrow> Some (Inl e)
         | Inr nextGems \<Rightarrow>
             (let s2 = s1\<lparr>gems := nextGems\<rparr>;
                  matches = findMatches nextGems
              in if length matches > 0 then processBoard draws s2 nextGems 1
                 else Some (Inr (s2\<lparr>gems := gems s, isProcessing := False\<rparr>))))"


section \<open>Initialisation\<close>

text \<open>
  \<open>newGems[i].type\<close>: an index outside the array reads \<open>undefined\<close>, whose \<open>type\<close>
  throws. \<open>andalso\<close> is the short-circuit conjunction of two such reads.
\<close>

definition typeAt :: "Gem list \<Rightarrow> int \<Rightarrow> error + kind" where
  "typeAt newGems i =
     (if 0 \<le> i \<and> i < int (length newGems) then Inr (gtype (newGems ! nat i)) else Inl TypeError)"

definition sameTypeAt :: "Gem list \<Rightarrow> int \<Rightarrow> kind \<Rightarrow> error + bool" where
  "sameTypeAt newGems i t = (case typeAt newGems i of Inl e \<Rightarrow> Inl e | Inr k \<Rightarrow> Inr (k = t))"

definition andalso :: "error + bool \<Rightarrow> error + bool \<Rightarrow> error + bool" where
  "andalso a b = (case a of Inl e \<Rightarrow> Inl e | Inr c \<Rightarrow> if c then b else Inr False)"

definition orelse :: "error + bool \<Rightarrow> error + bool \<Rightarrow> error + bool" where
  "orelse a b = (case a of Inl e \<Rightarrow> Inl e | Inr c \<Rightarrow> if c then Inr True else b)"

definition wouldMatch :: "Gem list \<Rightarrow> nat \<Rightarrow> nat \<Rightarrow> kind \<Rightarrow> error + bool" where
  "wouldMatch newGems x y t =
     (let n = int (length newGems)
      in orelse
           (andalso (Inr (x \<ge> 2))
              (andalso (sameTypeAt newGems (n - 1) t) (sameTypeAt newGems (n - 2) t)))
           (andalso (Inr (y \<ge> 2))
              (andalso (sameTypeAt newGems (n - int COLS) t)
                 (sameTypeAt newGems (n - int COLS * 2) t))))"

text \<open>
  The \<open>while\<close> loop of \<open>initGame\<close> draws again as long as the candidate kind would
  complete a run; nothing bounds the number of draws. \<open>cond\<close> is the loop condition as
  a function of the candidate, \<open>ts\<close> the candidate and the state.
\<close>

partial_function (option) redraw ::
  "(nat \<Rightarrow> kind) \<Rightarrow> (kind \<Rightarrow> error + bool) \<Rightarrow> kind \<times> State \<Rightarrow> (error + kind \<times> State) option" where
  "redraw draws cond ts =
     (case cond (fst ts) of
        Inl e \<Rightarrow> Some (Inl e)
      | Inr c \<Rightarrow>
          if c then redraw draws cond (getRandomType draws (snd ts))
          else Some (Inr ts))"

declare redraw.simps [code]

definition placeGem ::
  "(nat \<Rightarrow> kind) \<Rightarrow> nat \<Rightarrow> nat \<Rightarrow> Gem list \<times> State \<Rightarrow> (error + Gem list \<times> State) option" where
  "placeGem draws y x acc =
     (case redraw draws (wouldMatch (fst acc) x y) (getRandomType draws (snd acc)) of
        None \<Rightarrow> None
      | Some (Inl e) \<Rightarrow> Some (Inl e)
      | Some (Inr (t, s)) \<Rightarrow>
          (let (g, s') = createGem draws (int x) (int y) (Some t) s
           in Some (Inr (fst acc @ [g], s'))))"

fun forEach ::
  "('i \<Rightarrow> 'a \<Rightarrow> (error + 'a) option) \<Rightarrow> 'i list \<Rightarrow> 'a \<Rightarrow> (error + 'a) option" where
  "forEach body [] acc = Some (Inr acc)"
| "forEach body (i # is) acc =
     (case body i acc of
        None \<Rightarrow> None
      | Some (Inl e) \<Rightarrow> Some (Inl e)
      | Some (Inr acc') \<Rightarrow> forEach body is acc')"

definition initGame :: "(nat \<Rightarrow> kind) \<Rightarrow> State \<Rightarrow> (error + State) option" where
  "initGame draws s =
     (case forEach (\<lambda>y. forEach (placeGem draws y) [0..<COLS]) [0..<ROWS] ([], s) of
        None \<Rightarrow> None
      | Some (Inl e) \<Rightarrow> Some (Inl e)
      | Some (Inr (newGems, s')) \<Rightarrow>
          Some (Inr (s'\<lparr>gems := newGems, score := 0, isProcessing := False\<rparr>)))"

section \<open>A concrete session\<close>

text \<open>
  The examples below start from the board that \<open>initGame\<close> builds from the draws
  \<open>draws0\<close>: the first 64 draws are the kinds of the cells in row-major order,
  \<open>TYPES[(x + 2 * y) mod 6]\<close> except for six cells of the rows 0 and 1, and every
  later draw is an apple. No draw has to be repeated.
\<close>

definition mountState :: State where
  "mountState = \<lparr>gems = [], score = 0, selectedId = None, isProcessing = False,
     isPaused = False, gemIdCounter = 0, rngPos = 0\<rparr>"

definition draws0 :: "nat \<Rightarrow> kind" where
  "draws0 n =
     (if n < 64 then
        TYPES ! (if n \<in> {0, 1, 3} then 5 else if n \<in> {8, 9, 11} then 3
                 else (n mod 8 + 2 * (n div 8)) mod 6)
      else Apple)"

definition gemOf :: "nat \<Rightarrow> int \<Rightarrow> int \<Rightarrow> kind \<Rightarrow> Gem" where
  "gemOf i x y t = \<lparr>gid = i, gx = x, gy = y, gtype = t, isMatch = None, isNew = Some True\<rparr>"

definition settled :: "nat \<Rightarrow> int \<Rightarrow> int \<Rightarrow> kind \<Rightarrow> Gem" where
  "settled i x y t = \<lparr>gid = i, gx = x, gy = y, gtype = t, isMatch = Some False, isNew = Some True\<rparr>"

text \<open>\<open>board0\<close> is the board after \<open>initGame\<close>, \<open>state0\<close> the state that shows it.\<close>

definition board0 :: "Gem list" where
  "board0 = [
     gemOf 0 0 0 Lemon, gemOf 1 1 0 Lemon, gemOf 2 2 0 Grape,
     gemOf 3 3 0 Lemon, gemOf 4 4 0 Kiwi, gemOf 5 5 0 Lemon,
     gemOf 6 6 0 Apple, gemOf 7 7 0 Orange, gemOf 8 0 1 Coconut,
     gemOf 9 1 1 Coconut, gemOf 10 2 1 Kiwi, gemOf 11 3 1 Coconut,
     gemOf 12 4 1 Apple, gemOf 13 5 1 Orange, gemOf 14 6 1 Grape,
     gemOf 15 7 1 Coconut, gemOf 16 0 2 Kiwi, gemOf 17 1 2 Lemon,
     gemOf 18 2 2 Apple, gemOf 19 3 2 Orange, gemOf 20 4 2 Grape,
     gemOf 21 5 2 Coconut, gemOf 22 6 2 Kiwi, gemOf 23 7 2 Lemon,
     gemOf 24 0 3 Apple, gemOf 25 1 3 Orange, gemOf 26 2 3 Grape,
     gemOf 27 3 3 Coconut, gemOf 28 4 3 Kiwi, gemOf 29 5 3 Lemon,
     gemOf 30 6 3 Apple, gemOf 31 7 3 Orange, gemOf 32 0 4 Grape,
     gemOf 33 1 4 Coconut, gemOf 34 2 4 Kiwi, gemOf 35 3 4 Lemon,
     gemOf 36 4 4 Apple, gemOf 37 5 4 Orange, gemOf 38 6 4 Grape,
     gemOf 39 7 4 Coconut, gemOf 40 0 5 Kiwi, gemOf 41 1 5 Lemon,
     gemOf 42 2 5 Apple, gemOf 43 3 5 Orange, gemOf 44 4 5 Grape,
     gemOf 45 5 5 Coconut, gemOf 46 6 5 Kiwi, gemOf 47 7 5 Lemon,
     gemOf 48 0 6 Apple, gemOf 49 1 6 Orange, gemOf 50 2 6 Grape,
     gemOf 51 3 6 Coconut, gemOf 52 4 6 Kiwi, gemOf 53 5 6 Lemon,
     gemOf 54 6 6 Apple, gemOf 55 7 6 Orange, gemOf 56 0 7 Grape,
     gemOf 57 1 7 Coconut, gemOf 58 2 7 Kiwi, gemOf 59 3 7 Lemon,
     gemOf 60 4 7 Apple, gemOf 61 5 7 Orange, gemOf 62 6 7 Grape,
     gemOf 63 7 7 Coconut]"

definition state0 :: State where
  "state0 = \<lparr>gems = board0, score = 0, selectedId = None, isProcessing = False,
     isPaused = False, gemIdCounter = 64, rngPos = 64\<rparr>"

text \<open>
  The session continues with two swaps. \<open>layout1\<close> is the tentative layout of the swap
  of the gems 2 and 3 of \<open>state0\<close>, which completes a run in row 0. \<open>state1\<close> is the
  state when that swap has been handled: one round has removed the gems 0, 1 and 3 and
  created the gems 64, 65 and 66.
\<close>

definition layout1 :: "Gem list" where
  "layout1 = [
     gemOf 0 0 0 Lemon, gemOf 1 1 0 Lemon, gemOf 2 3 0 Grape,
     gemOf 3 2 0 Lemon, gemOf 4 4 0 Kiwi, gemOf 5 5 0 Lemon,
     gemOf 6 6 0 Apple, gemOf 7 7 0 Orange, gemOf 8 0 1 Coconut,
     gemOf 9 1 1 Coconut, gemOf 10 2 1 Kiwi, gemOf 11 3 1 Coconut,
     gemOf 12 4 1 Apple, gemOf 13 5 1 Orange, gemOf 14 6 1 Grape,
     gemOf 15 7 1 Coconut, gemOf 16 0 2 Kiwi, gemOf 17 1 2 Lemon,
     gemOf 18 2 2 Apple, gemOf 19 3 2 Orange, gemOf 20 4 2 Grape,
     gemOf 21 5 2 Coconut, gemOf 22 6 2 Kiwi, gemOf 23 7 2 Lemon,
     gemOf 24 0 3 Apple, gemOf 25 1 3 Orange, gemOf 26 2 3 Grape,
     gemOf 27 3 3 Coconut, gemOf 28 4 3 Kiwi, gemOf 29 5 3 Lemon,
     gemOf 30 6 3 Apple, gemOf 31 7 3 Orange, gemOf 32 0 4 Grape,
     gemOf 33 1 4 Coconut, gemOf 34 2 4 Kiwi, gemOf 35 3 4 Lemon,
     gemOf 36 4 4 Apple, gemOf 37 5 4 Orange, gemOf 38 6 4 Grape,
     gemOf 39 7 4 Coconut, gemOf 40 0 5 Kiwi, gemOf 41 1 5 Lemon,
     gemOf 42 2 5 Apple, gemOf 43 3 5 Orange, gemOf 44 4 5 Grape,
     gemOf 45 5 5 Coconut, gemOf 46 6 5 Kiwi, gemOf 47 7 5 Lemon,
     gemOf 48 0 6 Apple, gemOf 49 1 6 Orange, gemOf 50 2 6 Grape,
     gemOf 51 3 6 Coconut, gemOf 52 4 6 Kiwi, gemOf 53 5 6 Lemon,
     gemOf 54 6 6 Apple, gemOf 55 7 6 Orange, gemOf 56 0 7 Grape,
     gemOf 57 1 7 Coconut, gemOf 58 2 7 Kiwi, gemOf 59 3 7 Lemon,
     gemOf 60 4 7 Apple, gemOf 61 5 7 Orange, gemOf 62 6 7 Grape,
     gemOf 63 7 7 Coconut]"

definition board1 :: "Gem list" where
  "board1 = [
     gemOf 64 0 (- 1) Apple, settled 8 0 1 Coconut, settled 16 0 2 Kiwi,
     settled 24 0 3 Apple, settled 32 0 4 Grape, settled 40 0 5 Kiwi,
     settled 48 0 6 Apple, settled 56 0 7 Grape, gemOf 65 1 (- 1) Apple,
     settled 9 1 1 Coconut, settled 17 1 2 Lemon, settled 25 1 3 Orange,
     settled 33 1 4 Coconut, settled 41 1 5 Lemon, settled 49 1 6 Orange,
     settled 57 1 7 Coconut, gemOf 66 2 (- 1) Apple, settled 10 2 1 Kiwi,
     settled 18 2 2 Apple, settled 26 2 3 Grape, settled 34 2 4 Kiwi,
     settled 42 2 5 Apple, settled 50 2 6 Grape, settled 58 2 7 Kiwi,
     settled 2 3 0 Grape, settled 11 3 1 Coconut, settled 19 3 2 Orange,
     settled 27 3 3 Coconut, settled 35 3 4 Lemon, settled 43 3 5 Orange,
     settled 51 3 6 Coconut, settled 59 3 7 Lemon, settled 4 4 0 Kiwi,
     settled 12 4 1 Apple, settled 20 4 2 Grape, settled 28 4 3 Kiwi,
     settled 36 4 4 Apple, settled 44 4 5 Grape, settled 52 4 6 Kiwi,
     settled 60 4 7 Apple, settled 5 5 0 Lemon, settled 13 5 1 Orange,
     settled 21 5 2 Coconut, settled 29 5 3 Lemon, settled 37 5 4 Orange,
     settled 45 5 5 Coconut, settled 53 5 6 Lemon, settled 61 5 7 Orange,
     settled 6 6 0 Apple, settled 14 6 1 Grape, settled 22 6 2 Kiwi,
     settled 30 6 3 Apple, settled 38 6 4 Grape, settled 46 6 5 Kiwi,
     settled 54 6 6 Apple, settled 62 6 7 Grape, settled 7 7 0 Orange,
     settled 15 7 1 Coconut, settled 23 7 2 Lemon, settled 31 7 3 Orange,
     settled 39 7 4 Coconut, settled 47 7 5 Lemon, settled 55 7 6 Orange,
     settled 63 7 7 Coconut]"

definition state1 :: State where
  "state1 = \<lparr>gems = board1, score = 30, selectedId = None, isProcessing = False,
     isPaused = False, gemIdCounter = 67, rngPos = 67\<rparr>"

text \<open>
  \<open>layout2\<close> is the tentative layout of the swap of the gems 10 and 11 of \<open>state1\<close>,
  which completes a run in row 1, and \<open>board2\<close> the layout after the first round of
  its cascade.
\<close>

definition layout2 :: "Gem list" where
  "layout2 = [
     gemOf 64 0 (- 1) Apple, settled 8 0 1 Coconut, settled 16 0 2 Kiwi,
     settled 24 0 3 Apple, settled 32 0 4 Grape, settled 40 0 5 Kiwi,
     settled 48 0 6 Apple, settled 56 0 7 Grape, gemOf 65 1 (- 1) Apple,
     settled 9 1 1 Coconut, settled 17 1 2 Lemon, settled 25 1 3 Orange,
     settled 33 1 4 Coconut, settled 41 1 5 Lemon, settled 49 1 6 Orange,
     settled 57 1 7 Coconut, gemOf 66 2 (- 1) Apple, settled 10 3 1 Kiwi,
     settled 18 2 2 Apple, settled 26 2 3 Grape, settled 34 2 4 Kiwi,
     settled 42 2 5 Apple, settled 50 2 6 Grape, settled 58 2 7 Kiwi,
     settled 2 3 0 Grape, settled 11 2 1 Coconut, settled 19 3 2 Orange,
     settled 27 3 3 Coconut, settled 35 3 4 Lemon, settled 43 3 5 Orange,
     settled 51 3 6 Coconut, settled 59 3 7 Lemon, settled 4 4 0 Kiwi,
     settled 12 4 1 Apple, settled 20 4 2 Grape, settled 28 4 3 Kiwi,
     settled 36 4 4 Apple, settled 44 4 5 Grape, settled 52 4 6 Kiwi,
     settled 60 4 7 Apple, settled 5 5 0 Lemon, settled 13 5 1 Orange,
     settled 21 5 2 Coconut, settled 29 5 3 Lemon, settled 37 5 4 Orange,
     settled 45 5 5 Coconut, settled 53 5 6 Lemon, settled 61 5 7 Orange,
     settled 6 6 0 Apple, settled 14 6 1 Grape, settled 22 6 2 Kiwi,
     settled 30 6 3 Apple, settled 38 6 4 Grape, settled 46 6 5 Kiwi,
     settled 54 6 6 Apple, settled 62 6 7 Grape, settled 7 7 0 Orange,
     settled 15 7 1 Coconut, settled 23 7 2 Lemon, settled 31 7 3 Orange,
     settled 39 7 4 Coconut, settled 47 7 5 Lemon, settled 55 7 6 Orange,
     settled 63 7 7 Coconut]"

definition board2 :: "Gem list" where
  "board2 = [
     gemOf 67 0 (- 1) Apple, settled 64 0 1 Apple, settled 16 0 2 Kiwi,
     settled 24 0 3 Apple, settled 32 0 4 Grape, settled 40 0 5 Kiwi,
     settled 48 0 6 Apple, settled 56 0 7 Grape, gemOf 68 1 (- 1) Apple,
     settled 65 1 1 Apple, settled 17 1 2 Lemon, settled 25 1 3 Orange,
     settled 33 1 4 Coconut, settled 41 1 5 Lemon, settled 49 1 6 Orange,
     settled 57 1 7 Coconut, gemOf 69 2 (- 1) Apple, settled 66 2 1 Apple,
     settled 18 2 2 Apple, settled 26 2 3 Grape, settled 34 2 4 Kiwi,
     settled 42 2 5 Apple, settled 50 2 6 Grape, settled 58 2 7 Kiwi,
     settled 2 3 0 Grape, settled 10 3 1 Kiwi, settled 19 3 2 Orange,
     settled 27 3 3 Coconut, settled 35 3 4 Lemon, settled 43 3 5 Orange,
     settled 51 3 6 Coconut, settled 59 3 7 Lemon, settled 4 4 0 Kiwi,
     settled 12 4 1 Apple, settled 20 4 2 Grape, settled 28 4 3 Kiwi,
     settled 36 4 4 Apple, settled 44 4 5 Grape, settled 52 4 6 Kiwi,
     settled 60 4 7 Apple, settled 5 5 0 Lemon, settled 13 5 1 Orange,
     settled 21 5 2 Coconut, settled 29 5 3 Lemon, settled 37 5 4 Orange,
     settled 45 5 5 Coconut, settled 53 5 6 Lemon, settled 61 5 7 Orange,
     settled 6 6 0 Apple, settled 14 6 1 Grape, settled 22 6 2 Kiwi,
     settled 30 6 3 Apple, settled 38 6 4 Grape, settled 46 6 5 Kiwi,
     settled 54 6 6 Apple, settled 62 6 7 Grape, settled 7 7 0 Orange,
     settled 15 7 1 Coconut, settled 23 7 2 Lemon, settled 31 7 3 Orange,
     settled 39 7 4 Coconut, settled 47 7 5 Lemon, settled 55 7 6 Orange,
     settled 63 7 7 Coconut]"

section \<open>Notions used in the statements\<close>

text \<open>
  A window of three cells of a line matches when all three cells are occupied by gems
  of one kind. \<open>lineMatches\<close> collects the ids of the gems in the matching windows of
  a line, \<open>matchedSet\<close> those of all rows and all columns.
\<close>

definition window :: "(nat \<Rightarrow> Gem option) \<Rightarrow> nat \<Rightarrow> bool" where
  "window line i =
     (case line i of
        None \<Rightarrow> False
      | Some g1 \<Rightarrow>
         (case line (i + 1) of
            None \<Rightarrow> False
          | Some g2 \<Rightarrow>
             (case line (i + 2) of
                None \<Rightarrow> False
              | Some g3 \<Rightarrow> gtype g1 = gtype g2 \<and> gtype g1 = gtype g3)))"

definition lineMatches :: "(nat \<Rightarrow> Gem option) \<Rightarrow> nat \<Rightarrow> nat set" where
  "lineMatches line lim =
     {gid g | g i j. i + 2 < lim \<and> window line i \<and> j \<le> 2 \<and> line (i + j) = Some g}"

definition scanLine :: "(nat \<Rightarrow> Gem option) \<Rightarrow> nat \<Rightarrow> nat list \<Rightarrow> nat list" where
  "scanLine line lim = fold (checkRun line lim) [0..<lim - 2]"

definition matchedSet :: "Gem list \<Rightarrow> nat set" where
  "matchedSet gs =
     (\<Union>y\<in>{..<ROWS}. lineMatches (hline gs y) COLS) \<union> (\<Union>x\<in>{..<COLS}. lineMatches (vline gs x) ROWS)"


text \<open>
  The closed form of one gravity step: \<open>column\<close> is the sorted column of the
  rebuild loop, \<open>missingOf\<close> its \<open>missing\<close>, \<open>freshGem\<close> the \<open>i\<close>-th gem
  created from a state, and \<open>advance n\<close> the state after \<open>n\<close> calls of
  \<open>createGem\<close> without a kind.
\<close>


definition advance :: "nat \<Rightarrow> State \<Rightarrow> State" where
  "advance n s = s\<lparr>gemIdCounter := gemIdCounter s + n, rngPos := rngPos s + n\<rparr>"

definition freshGem :: "(nat \<Rightarrow> kind) \<Rightarrow> State \<Rightarrow> int \<Rightarrow> int \<Rightarrow> nat \<Rightarrow> Gem" where
  "freshGem draws s x missing i =
     \<lparr>gid = gemIdCounter s + i, gx = x, gy = int i - missing, gtype = draws (rngPos s + i),
      isMatch = None, isNew = Some True\<rparr>"

definition column :: "Gem list \<Rightarrow> nat \<Rightarrow> Gem list" where
  "column remainingGems x = sort_key gy (filter (\<lambda>g. gx g = int x) remainingGems)"

definition missingOf :: "Gem list \<Rightarrow> nat \<Rightarrow> int" where
  "missingOf remainingGems x = int ROWS - int (length (column remainingGems x))"

definition newColumn :: "(nat \<Rightarrow> kind) \<Rightarrow> Gem list \<Rightarrow> State \<Rightarrow> nat \<Rightarrow> Gem list" where
  "newColumn draws remainingGems s x =
     map (freshGem draws s (int x) (missingOf remainingGems x)) [0..<nat (missingOf remainingGems x)]
     @ moveExisting (missingOf remainingGems x) (column remainingGems x)"

primrec newColumns :: "(nat \<Rightarrow> kind) \<Rightarrow> Gem list \<Rightarrow> State \<Rightarrow> nat list \<Rightarrow> Gem list" where
  "newColumns draws remainingGems s [] = []"
| "newColumns draws remainingGems s (x # xs) =
     newColumn draws remainingGems s x
     @ newColumns draws remainingGems (advance (nat (missingOf remainingGems x)) s) xs"

text \<open>
  \<open>hrun gs r c k\<close>: the cells \<open>c, \<dots>, c + k - 1\<close> of row \<open>r\<close> are occupied by gems of
  one kind. \<open>noOtherRun gs r c k\<close>: every matching window of three cells lies in row
  \<open>r\<close> between the columns \<open>c\<close> and \<open>c + k - 1\<close>; in particular the run is not
  longer than \<open>k\<close> and no column has a run.
\<close>

definition hrun :: "Gem list \<Rightarrow> nat \<Rightarrow> nat \<Rightarrow> nat \<Rightarrow> bool" where
  "hrun gs r c k =
     (case hline gs r c of
        None \<Rightarrow> False
      | Some g0 \<Rightarrow>
          (\<forall>x \<in> set [c..<c + k].
             (case hline gs r x of None \<Rightarrow> False | Some g \<Rightarrow> gtype g = gtype g0)))"

definition noOtherRun :: "Gem list \<Rightarrow> nat \<Rightarrow> nat \<Rightarrow> nat \<Rightarrow> bool" where
  "noOtherRun gs r c k =
     ((\<forall>y \<in> set [0..<ROWS]. \<forall>x \<in> set [0..<COLS - 2].
         window (hline gs y) x \<longrightarrow> y = r \<and> c \<le> x \<and> x + 3 \<le> c + k) \<and>
      (\<forall>x \<in> set [0..<COLS]. \<forall>y \<in> set [0..<ROWS - 2]. \<not> window (vline gs x) y))"

text \<open>
  \<open>cascadeRounds draws n s gs m\<close> is the state and the layout after \<open>n\<close> rounds of the
  cascade that \<open>processBoard draws s gs m\<close> runs, and \<open>matchedIn draws s gs m i\<close> the
  match set that the detection of round \<open>i + 1\<close> finds.
\<close>

fun cascadeRounds ::
  "(nat \<Rightarrow> kind) \<Rightarrow> nat \<Rightarrow> State \<Rightarrow> Gem list \<Rightarrow> int \<Rightarrow> error + State \<times> Gem list" where
  "cascadeRounds draws 0 s gs m = Inr (s, gs)"
| "cascadeRounds draws (Suc n) s gs m =
     (case cascadeRound draws (s\<lparr>isProcessing := True\<rparr>) gs m of
        Inl e \<Rightarrow> Inl e
      | Inr (s', gs') \<Rightarrow> cascadeRounds draws n s' gs' (m + 1))"

definition matchedIn :: "(nat \<Rightarrow> kind) \<Rightarrow> State \<Rightarrow> Gem list \<Rightarrow> int \<Rightarrow> nat \<Rightarrow> nat list" where
  "matchedIn draws s gs m i =
     (case cascadeRounds draws i s gs m of Inl e \<Rightarrow> [] | Inr (s', gs') \<Rightarrow> findMatches gs')"

text \<open>
  \<open>fullBoard gs\<close>: every gem of the layout is inside the board and every cell of the
  board holds exactly one gem.
\<close>

definition fullBoard :: "Gem list \<Rightarrow> bool" where
  "fullBoard gs =
     ((\<forall>g \<in> set gs. 0 \<le> gx g \<and> gx g < int COLS \<and> 0 \<le> gy g \<and> gy g < int ROWS) \<and>
      (\<forall>y \<in> set [0..<ROWS]. \<forall>x \<in> set [0..<COLS].
         length (filter (\<lambda>g. gx g = int x \<and> gy g = int y) gs) = 1))"

text \<open>
  \<open>placed n gs\<close> is the invariant of the fill loop of \<open>initGame\<close> after \<open>n\<close> cells: the
  gem at index \<open>i\<close> is in column \<open>i mod COLS\<close> and row \<open>i div COLS\<close>, and it does not
  complete a run of three with the two gems to its left or with the two gems above it.
\<close>

definition noRunAt :: "Gem list \<Rightarrow> nat \<Rightarrow> bool" where
  "noRunAt gs i =
     (\<not> (2 \<le> i mod COLS \<and> gtype (gs ! (i - 1)) = gtype (gs ! i) \<and>
           gtype (gs ! (i - 2)) = gtype (gs ! i)) \<and>
      \<not> (2 \<le> i div COLS \<and> gtype (gs ! (i - COLS)) = gtype (gs ! i) \<and>
           gtype (gs ! (i - 2 * COLS)) = gtype (gs ! i)))"

definition placed :: "nat \<Rightarrow> Gem list \<Rightarrow> bool" where
  "placed n gs =
     (length gs = n \<and>
      (\<forall>i<n. gx (gs ! i) = int (i mod COLS) \<and> gy (gs ! i) = int (i div COLS) \<and> noRunAt gs i))"

text \<open>
  The cell of a gem is its position and kind; two layouts have the same shape when
  their lists of cells agree, whatever the ids and flags of the gems.
\<close>

definition cell :: "Gem \<Rightarrow> int \<times> int \<times> kind" where
  "cell g = (gx g, gy g, gtype g)"

text \<open>
  A second session, whose draws repeat every kind three times in a row, so that the fill
  loop of \<open>initGame\<close> has to draw again. \<open>stateA\<close> is the state after the first
  \<open>initGame\<close>, which uses 85 draws for the 64 cells; \<open>stateB\<close> is the state after gem 0
  has been selected and \<open>initGame\<close> has run again (the Reset button).
\<close>

definition draws1 :: "nat \<Rightarrow> kind" where
  "draws1 n = TYPES ! ((n div 3) mod 6)"

definition boardA :: "Gem list" where
  "boardA = [
     gemOf 0 0 0 Apple, gemOf 1 1 0 Apple, gemOf 2 2 0 Orange,
     gemOf 3 3 0 Orange, gemOf 4 4 0 Grape, gemOf 5 5 0 Grape,
     gemOf 6 6 0 Coconut, gemOf 7 7 0 Coconut, gemOf 8 0 1 Coconut,
     gemOf 9 1 1 Kiwi, gemOf 10 2 1 Kiwi, gemOf 11 3 1 Lemon,
     gemOf 12 4 1 Lemon, gemOf 13 5 1 Apple, gemOf 14 6 1 Apple,
     gemOf 15 7 1 Orange, gemOf 16 0 2 Orange, gemOf 17 1 2 Orange,
     gemOf 18 2 2 Grape, gemOf 19 3 2 Grape, gemOf 20 4 2 Coconut,
     gemOf 21 5 2 Coconut, gemOf 22 6 2 Kiwi, gemOf 23 7 2 Kiwi,
     gemOf 24 0 3 Kiwi, gemOf 25 1 3 Lemon, gemOf 26 2 3 Lemon,
     gemOf 27 3 3 Apple, gemOf 28 4 3 Apple, gemOf 29 5 3 Orange,
     gemOf 30 6 3 Orange, gemOf 31 7 3 Grape, gemOf 32 0 4 Grape,
     gemOf 33 1 4 Grape, gemOf 34 2 4 Coconut, gemOf 35 3 4 Coconut,
     gemOf 36 4 4 Kiwi, gemOf 37 5 4 Kiwi, gemOf 38 6 4 Lemon,
     gemOf 39 7 4 Lemon, gemOf 40 0 5 Lemon, gemOf 41 1 5 Apple,
     gemOf 42 2 5 Apple, gemOf 43 3 5 Orange, gemOf 44 4 5 Orange,
     gemOf 45 5 5 Grape, gemOf 46 6 5 Grape, gemOf 47 7 5 Coconut,
     gemOf 48 0 6 Coconut, gemOf 49 1 6 Coconut, gemOf 50 2 6 Kiwi,
     gemOf 51 3 6 Kiwi, gemOf 52 4 6 Lemon, gemOf 53 5 6 Lemon,
     gemOf 54 6 6 Apple, gemOf 55 7 6 Apple, gemOf 56 0 7 Apple,
     gemOf 57 1 7 Orange, gemOf 58 2 7 Orange, gemOf 59 3 7 Grape,
     gemOf 60 4 7 Grape, gemOf 61 5 7 Coconut, gemOf 62 6 7 Coconut,
     gemOf 63 7 7 Kiwi]"

definition stateA :: State where
  "stateA = \<lparr>gems = boardA, score = 0, selectedId = None, isProcessing = False,
     isPaused = False, gemIdCounter = 64, rngPos = 85\<rparr>"



section \<open>The example session is reachable\<close>

lemma initGame_draws0: "initGame draws0 mountState = Some (Inr state0)"
  by code_simp

lemma swapLayout_state0: "swapLayout state0 2 3 = Inr layout1"
  by code_simp

lemma findMatches_layout1: "findMatches layout1 = [0, 1, 3]"
  by code_simp

lemma cascadeRound_layout1:
  "cascadeRound draws0
     \<lparr>gems = layout1, score = 0, selectedId = None, isProcessing = True, isPaused = False,
      gemIdCounter = 64, rngPos = 64\<rparr> layout1 1 =
   Inr (\<lparr>gems = board1, score = 30, selectedId = None, isProcessing = True, isPaused = False,
         gemIdCounter = 67, rngPos = 67\<rparr>, board1)"
  by (simp only: cascadeRound_def findMatches_layout1 Let_def) code_simp

lemma findMatches_board1: "findMatches board1 = []"
  by code_simp

lemma handleSwap_state0: "handleSwap draws0 state0 2 3 = Some (Inr state1)"
proof -
  let ?s2 = "\<lparr>gems = layout1, score = 0, selectedId = None, isProcessing = True,
    isPaused = False, gemIdCounter = 64, rngPos = 64\<rparr>"
  let ?s5 = "\<lparr>gems = board1, score = 30, selectedId = None, isProcessing = True,
    isPaused = False, gemIdCounter = 67, rngPos = 67\<rparr>"
  have s2: "state0\<lparr>isProcessing := True, selectedId := None, gems := layout1\<rparr> = ?s2"
    by (simp add: state0_def)
  have "processBoard draws0 ?s5 board1 (1 + 1) = Some (Inr state1)"
    by (subst processBoard.simps) (simp add: findMatches_board1 state1_def)
  then have "processBoard draws0 ?s2 layout1 1 = Some (Inr state1)"
    by (subst processBoard.simps) (simp add: findMatches_layout1 cascadeRound_layout1)
  then show ?thesis
    by (simp add: handleSwap_def swapLayout_state0 findMatches_layout1 s2)
qed

lemma swapLayout_state1: "swapLayout state1 10 11 = Inr layout2"
  by code_simp

lemma findMatches_layout2: "findMatches layout2 = [8, 9, 11]"
  by code_simp

section \<open>Properties of match detection\<close>

lemma set_set_add [simp]: "set (set_add ms i) = insert i (set ms)"
  by (auto simp: set_add_def)

lemma distinct_set_add [simp]: "distinct (set_add ms i) = distinct ms"
  by (auto simp: set_add_def)

lemma windowI:
  "line i = Some g1 \<Longrightarrow> line (i + 1) = Some g2 \<Longrightarrow> line (i + 2) = Some g3 \<Longrightarrow>
   gtype g1 = t \<Longrightarrow> gtype g2 = t \<Longrightarrow> gtype g3 = t \<Longrightarrow> window line i"
  by (simp add: window_def)

lemma windowE:
  assumes "window line i"
  obtains g1 g2 g3 where "line i = Some g1" "line (i + 1) = Some g2" "line (i + 2) = Some g3"
    "gtype g2 = gtype g1" "gtype g3 = gtype g1"
  using assms by (auto simp: window_def split: option.splits)

lemma extendRun_mono: "set ms \<subseteq> set (extendRun line lim t k ms)"
proof (induction line lim t k ms rule: extendRun.induct)
  case (1 line lim t k ms)
  then show ?case
    by (subst extendRun.simps) (auto split: option.splits)
qed

lemma extendRun_distinct: "distinct ms \<Longrightarrow> distinct (extendRun line lim t k ms)"
proof (induction line lim t k ms rule: extendRun.induct)
  case (1 line lim t k ms)
  then show ?case
    by (subst extendRun.simps) (auto split: option.splits)
qed

lemma extendRun_upper:
  assumes "\<forall>j. i \<le> j \<and> j < k \<longrightarrow> (\<exists>g. line j = Some g \<and> gtype g = t)"
      and "i + 3 \<le> k"
      and "set ms \<subseteq> S \<union> lineMatches line lim"
  shows "set (extendRun line lim t k ms) \<subseteq> S \<union> lineMatches line lim"
  using assms
proof (induction line lim t k ms rule: extendRun.induct)
  case (1 line lim t k ms)
  show ?case
  proof (cases "k < lim")
    case False
    then show ?thesis using "1.prems"(3) by (subst extendRun.simps) simp
  next
    case True
    show ?thesis
    proof (cases "line k")
      case None
      then show ?thesis using True "1.prems"(3) by (subst extendRun.simps) simp
    next
      case (Some nxt)
      show ?thesis
      proof (cases "gtype nxt = t")
        case False
        then show ?thesis using True Some "1.prems"(3) by (subst extendRun.simps) simp
      next
        case same: True
        have "i \<le> k - 2 \<and> k - 2 < k" "i \<le> k - 1 \<and> k - 1 < k"
          using "1.prems"(2) by arith+
        then obtain a b where a: "line (k - 2) = Some a" "gtype a = t"
          and b: "line (k - 1) = Some b" "gtype b = t"
          using "1.prems"(1) by blast
        have k2: "k - 2 + 1 = k - 1" "k - 2 + 2 = k" using "1.prems"(2) by arith+
        have "window line (k - 2)"
          using a b Some same k2 by (simp add: window_def)
        moreover have "k - 2 + 2 < lim" using True k2 by simp
        ultimately have "gid nxt \<in> lineMatches line lim"
          unfolding lineMatches_def using Some k2(2)
          by (intro CollectI exI [of _ nxt] exI [of _ "k - 2"] exI [of _ 2]) simp
        then have ms': "set (set_add ms (gid nxt)) \<subseteq> S \<union> lineMatches line lim"
          using "1.prems"(3) by simp
        have cont: "\<forall>j. i \<le> j \<and> j < k + 1 \<longrightarrow> (\<exists>g. line j = Some g \<and> gtype g = t)"
          using "1.prems"(1) Some same by (metis Suc_eq_plus1 less_Suc_eq)
        have "set (extendRun line lim t (k + 1) (set_add ms (gid nxt))) \<subseteq> S \<union> lineMatches line lim"
          using "1.IH" [OF True Some same cont _ ms'] "1.prems"(2) by simp
        then show ?thesis using True Some same by (subst extendRun.simps) simp
      qed
    qed
  qed
qed


lemma checkRun_mono: "set ms \<subseteq> set (checkRun line lim i ms)"
proof -
  have "set ms \<subseteq> set (extendRun line lim t k (set_add (set_add (set_add ms a) b) c))" for t k a b c
    using extendRun_mono [of "set_add (set_add (set_add ms a) b) c" line lim t k] by auto
  then show ?thesis
    by (simp add: checkRun_def split: option.splits)
qed

lemma checkRun_distinct: "distinct ms \<Longrightarrow> distinct (checkRun line lim i ms)"
  by (simp add: checkRun_def extendRun_distinct split: option.splits)

lemma checkRun_lower:
  assumes "window line i" and "j \<le> 2" and "line (i + j) = Some g"
  shows "gid g \<in> set (checkRun line lim i ms)"
proof -
  from assms(1) obtain g1 g2 g3 where w: "line i = Some g1" "line (i + 1) = Some g2"
    "line (i + 2) = Some g3" "gtype g2 = gtype g1" "gtype g3 = gtype g1"
    by (rule windowE)
  from assms(2) have "j = 0 \<or> j = 1 \<or> j = 2" by arith
  with assms(3) w have "gid g \<in> set (set_add (set_add (set_add ms (gid g1)) (gid g2)) (gid g3))"
    by auto
  then have "gid g \<in> set (extendRun line lim (gtype g1) (i + 3)
      (set_add (set_add (set_add ms (gid g1)) (gid g2)) (gid g3)))"
    using extendRun_mono by blast
  then show ?thesis using w by (simp add: checkRun_def)
qed

lemma checkRun_upper:
  assumes "i + 2 < lim"
  shows "set (checkRun line lim i ms) \<subseteq> set ms \<union> lineMatches line lim"
proof (cases "window line i")
  case False
  then show ?thesis
    by (auto simp: checkRun_def window_def split: option.splits)
next
  case True
  then obtain g1 g2 g3 where w: "line i = Some g1" "line (i + 1) = Some g2"
    "line (i + 2) = Some g3" "gtype g2 = gtype g1" "gtype g3 = gtype g1"
    by (rule windowE)
  have in3: "gid g \<in> lineMatches line lim" if "j \<le> 2" "line (i + j) = Some g" for j g
    unfolding lineMatches_def using assms True that by blast
  have "gid g1 \<in> lineMatches line lim" using in3 [of 0 g1] w by simp
  moreover have "gid g2 \<in> lineMatches line lim" using in3 [of 1 g2] w by simp
  moreover have "gid g3 \<in> lineMatches line lim" using in3 [of 2 g3] w by simp
  ultimately have start: "set (set_add (set_add (set_add ms (gid g1)) (gid g2)) (gid g3))
      \<subseteq> set ms \<union> lineMatches line lim"
    by auto
  have cont: "\<forall>j. i \<le> j \<and> j < i + 3 \<longrightarrow> (\<exists>g. line j = Some g \<and> gtype g = gtype g1)"
  proof (intro allI impI)
    fix j assume "i \<le> j \<and> j < i + 3"
    then have "j = i \<or> j = i + 1 \<or> j = i + 2" by arith
    with w show "\<exists>g. line j = Some g \<and> gtype g = gtype g1" by auto
  qed
  have "set (extendRun line lim (gtype g1) (i + 3)
      (set_add (set_add (set_add ms (gid g1)) (gid g2)) (gid g3))) \<subseteq> set ms \<union> lineMatches line lim"
    by (rule extendRun_upper [OF cont _ start]) simp
  then show ?thesis using w by (simp add: checkRun_def)
qed

lemma fold_distinct:
  assumes "\<And>i ms. distinct ms \<Longrightarrow> distinct (f i ms)" and "distinct (ms :: nat list)"
  shows "distinct (fold f xs ms)"
  using assms(2) by (induction xs arbitrary: ms) (simp_all add: assms(1))

lemma fold_mono:
  assumes "\<And>i ms. i \<in> set xs \<Longrightarrow> set ms \<subseteq> set (f i ms)"
  shows "set ms \<subseteq> set (fold f xs ms)"
  using assms
proof (induction xs arbitrary: ms)
  case Nil
  then show ?case by simp
next
  case (Cons x xs)
  have "set (f x ms) \<subseteq> set (fold f xs (f x ms))"
    by (rule Cons.IH) (simp add: Cons.prems)
  moreover have "set ms \<subseteq> set (f x ms)"
    by (rule Cons.prems) simp
  ultimately show ?case by simp
qed

lemma fold_lower:
  assumes mono: "\<And>i ms. i \<in> set xs \<Longrightarrow> set ms \<subseteq> set (f i ms)"
      and low: "\<And>ms. a \<in> set (f k ms)"
      and "k \<in> set xs"
  shows "a \<in> set (fold f xs ms)"
  using assms(1,3)
proof (induction xs arbitrary: ms)
  case Nil
  then show ?case by simp
next
  case (Cons x xs)
  show ?case
  proof (cases "k = x")
    case True
    have "a \<in> set (f x ms)"
      unfolding True [symmetric] by (rule low)
    moreover have "set (f x ms) \<subseteq> set (fold f xs (f x ms))"
      by (rule fold_mono) (simp add: Cons.prems(1))
    ultimately show ?thesis by auto
  next
    case False
    with Cons.prems(2) have "k \<in> set xs" by simp
    then have "a \<in> set (fold f xs (f x ms))"
      by (intro Cons.IH) (simp_all add: Cons.prems(1))
    then show ?thesis by simp
  qed
qed

lemma fold_upper:
  assumes "\<And>i ms. i \<in> set xs \<Longrightarrow> set (f i ms) \<subseteq> set ms \<union> B"
  shows "set (fold f xs ms) \<subseteq> set ms \<union> B"
  using assms
proof (induction xs arbitrary: ms)
  case Nil
  then show ?case by simp
next
  case (Cons x xs)
  have "set (fold f xs (f x ms)) \<subseteq> set (f x ms) \<union> B"
    by (rule Cons.IH) (simp add: Cons.prems)
  moreover have "set (f x ms) \<subseteq> set ms \<union> B"
    by (rule Cons.prems) simp
  ultimately show ?case by auto
qed

lemma scanLine_mono: "set ms \<subseteq> set (scanLine line lim ms)"
  unfolding scanLine_def by (rule fold_mono) (rule checkRun_mono)

lemma scanLine_upper: "set (scanLine line lim ms) \<subseteq> set ms \<union> lineMatches line lim"
  unfolding scanLine_def
proof (rule fold_upper)
  fix i ms'
  assume "i \<in> set [0..<lim - 2]"
  then have "i + 2 < lim" by auto
  then show "set (checkRun line lim i ms') \<subseteq> set ms' \<union> lineMatches line lim"
    by (rule checkRun_upper)
qed

lemma scanLine_lower: "lineMatches line lim \<subseteq> set (scanLine line lim ms)"
proof
  fix n assume "n \<in> lineMatches line lim"
  then obtain g i j where n: "n = gid g" and i: "i + 2 < lim" and w: "window line i"
    and j: "j \<le> 2" "line (i + j) = Some g"
    unfolding lineMatches_def by blast
  from i have "i \<in> set [0..<lim - 2]" by auto
  then have "gid g \<in> set (fold (checkRun line lim) [0..<lim - 2] ms)"
  proof (rule fold_lower [where f = "checkRun line lim" and k = i, rotated 2])
    show "set ms' \<subseteq> set (checkRun line lim i' ms')" for i' ms'
      by (rule checkRun_mono)
    show "gid g \<in> set (checkRun line lim i ms')" for ms'
      by (rule checkRun_lower [OF w j])
  qed
  then show "n \<in> set (scanLine line lim ms)"
    by (simp add: n scanLine_def)
qed

lemma scanLine_set: "set (scanLine line lim ms) = set ms \<union> lineMatches line lim"
  using scanLine_mono [of ms line lim] scanLine_upper [of line lim ms]
    scanLine_lower [of line lim ms]
  by blast

lemma scanLine_distinct: "distinct ms \<Longrightarrow> distinct (scanLine line lim ms)"
  unfolding scanLine_def by (rule fold_distinct) (rule checkRun_distinct)

lemma fold_scan_set:
  "set (fold (\<lambda>i. scanLine (line i) lim) xs ms) = set ms \<union> (\<Union>i\<in>set xs. lineMatches (line i) lim)"
  by (induction xs arbitrary: ms) (auto simp: scanLine_set)

lemma findMatches_unfold:
  "findMatches gs =
     fold (\<lambda>x. scanLine (vline gs x) ROWS) [0..<COLS]
       (fold (\<lambda>y. scanLine (hline gs y) COLS) [0..<ROWS] [])"
  by (simp add: findMatches_def scanLine_def)

lemma findMatches_set: "set (findMatches gs) = matchedSet gs"
  by (auto simp: findMatches_unfold fold_scan_set matchedSet_def)

lemma findMatches_distinct: "distinct (findMatches gs)"
  unfolding findMatches_unfold
  by (intro fold_distinct scanLine_distinct) simp_all

section \<open>Swap and selection\<close>

text \<open>
  Claim C6. When the layout obtained by exchanging the positions of the tokens \<open>a\<close>
  and \<open>b\<close> contains no match, \<open>handleSwap\<close> returns with the gem list of the state
  before the swap, gem for gem, and with the score it had.
\<close>

theorem handleSwap_revert:
  assumes "swapLayout s a b = Inr nextGems"
      and "findMatches nextGems = []"
  shows "\<exists>s'. handleSwap draws s a b = Some (Inr s') \<and> gems s' = gems s \<and> score s' = score s"
  using assms by (simp add: handleSwap_def)

lemma state0_swap01:
  "(case swapLayout state0 0 1 of Inr n \<Rightarrow> findMatches n = [] | Inl e \<Rightarrow> False)"
  by code_simp

theorem handleSwap_revert_witness:
  "(\<exists>n. swapLayout state0 0 1 = Inr n \<and> findMatches n = []) \<and>
   (\<exists>s'. handleSwap draws0 state0 0 1 = Some (Inr s') \<and> gems s' = board0 \<and> score s' = 0)"
proof -
  obtain n where n: "swapLayout state0 0 1 = Inr n" "findMatches n = []"
    using state0_swap01 by (cases "swapLayout state0 0 1") simp_all
  have "gems state0 = board0" "score state0 = 0"
    by (simp_all add: state0_def)
  with handleSwap_revert [OF n, of draws0] n show ?thesis
    by auto
qed



section \<open>Gravity and refill in closed form\<close>

lemma createGem_None:
  "createGem draws x y None s =
     (\<lparr>gid = gemIdCounter s, gx = x, gy = y, gtype = draws (rngPos s), isMatch = None,
       isNew = Some True\<rparr>, advance 1 s)"
  by (simp add: createGem_def getRandomType_def advance_def Let_def)

lemma advance_advance [simp]: "advance m (advance n s) = advance (n + m) s"
  by (simp add: advance_def add.assoc)

lemma advance_fields [simp]:
  "gemIdCounter (advance n s) = gemIdCounter s + n"
  "rngPos (advance n s) = rngPos s + n"
  "score (advance n s) = score s"
  "gems (advance n s) = gems s"
  "selectedId (advance n s) = selectedId s"
  "isProcessing (advance n s) = isProcessing s"
  "isPaused (advance n s) = isPaused s"
  by (simp_all add: advance_def)

lemma advance_0 [simp]: "advance 0 s = s"
  by (simp add: advance_def)

lemma spawnGems_closed:
  "spawnGems draws x missing is (acc, s) =
     (acc @ map (\<lambda>(j, i). \<lparr>gid = gemIdCounter s + j, gx = x, gy = int i - missing,
                 gtype = draws (rngPos s + j), isMatch = None, isNew = Some True\<rparr>)
              (enumerate 0 is),
      advance (length is) s)"
proof (induction "is" arbitrary: acc s)
  case Nil
  then show ?case by simp
next
  case (Cons i "is")
  show ?case
    by (simp add: createGem_None Cons.IH enumerate_Suc_eq [of 0] case_prod_beta comp_def)
qed

lemma spawnGems_upt:
  "spawnGems draws x missing [0..<n] (acc, s) =
     (acc @ map (freshGem draws s x missing) [0..<n], advance n s)"
proof -
  have "enumerate 0 [0..<n] = map (\<lambda>i. (i, i)) [0..<n]"
    by (simp add: enumerate_eq_zip zip_same_conv_map)
  then show ?thesis
    by (simp add: spawnGems_closed freshGem_def comp_def)
qed

lemma rebuildColumn_closed:
  "rebuildColumn draws rem x (acc, s) =
     (acc @ newColumn draws rem s x, advance (nat (missingOf rem x)) s)"
  by (simp add: rebuildColumn_def Let_def spawnGems_upt newColumn_def missingOf_def column_def)

lemma fold_rebuildColumn:
  "fold (rebuildColumn draws rem) xs (acc, s) =
     (acc @ newColumns draws rem s xs, advance (sum_list (map (\<lambda>x. nat (missingOf rem x)) xs)) s)"
  by (induction xs arbitrary: acc s) (simp_all add: rebuildColumn_closed)

lemma applyGravity_Inr:
  assumes "applyGravity draws rem s = Inr (newGems, s')"
  shows "(\<forall>g\<in>set rem. 0 \<le> gx g \<and> gx g < int COLS) \<and>
         newGems = newColumns draws rem s [0..<COLS] \<and>
         s' = advance (sum_list (map (\<lambda>x. nat (missingOf rem x)) [0..<COLS])) s"
  using assms by (auto simp: applyGravity_def fold_rebuildColumn split: if_splits)

lemma cascadeRound_score:
  assumes "cascadeRound draws s gs m = Inr (s', gs')"
  shows "score s' = score s + int (length (findMatches gs)) * 10 * m"
  using assms
  by (auto simp: cascadeRound_def Let_def split: sum.splits dest!: applyGravity_Inr)

section \<open>Size and content of the match set\<close>

lemma getGemAt_SomeD:
  assumes "getGemAt x y gs = Some g"
  shows "g \<in> set gs" and "gx g = x" and "gy g = y"
  using assms by (auto simp: getGemAt_def find_Some_iff)

lemma hline_SomeD:
  assumes "hline gs y k = Some g"
  shows "g \<in> set gs \<and> gx g = int k"
  using assms getGemAt_SomeD [of "int k" "int y" gs g] by (simp add: hline_def)

lemma vline_SomeD:
  assumes "vline gs x k = Some g"
  shows "g \<in> set gs \<and> gy g = int k"
  using assms getGemAt_SomeD [of "int x" "int k" gs g] by (simp add: vline_def)

lemma distinct_ids_neq:
  assumes "distinct (map gid gs)" and "g \<in> set gs" and "h \<in> set gs" and "g \<noteq> h"
  shows "gid g \<noteq> gid h"
  using assms by (meson distinct_map inj_onD)

lemma window_three_ids:
  assumes w: "window line i"
      and sound: "\<And>k g. line k = Some g \<Longrightarrow> g \<in> set gs \<and> key g = int k"
      and d: "distinct (map gid gs)"
      and lim: "i + 2 < lim"
  shows "\<exists>a b c. a \<noteq> b \<and> a \<noteq> c \<and> b \<noteq> c \<and> {a, b, c} \<subseteq> lineMatches line lim"
proof -
  from w obtain g1 g2 g3 where g: "line i = Some g1" "line (i + 1) = Some g2"
    "line (i + 2) = Some g3"
    by (rule windowE)
  have k: "key g1 = int i" "key g2 = int (i + 1)" "key g3 = int (i + 2)"
    and m: "g1 \<in> set gs" "g2 \<in> set gs" "g3 \<in> set gs"
    using sound [OF g(1)] sound [OF g(2)] sound [OF g(3)] by simp_all
  from k have "g1 \<noteq> g2" "g1 \<noteq> g3" "g2 \<noteq> g3" by auto
  then have "gid g1 \<noteq> gid g2" "gid g1 \<noteq> gid g3" "gid g2 \<noteq> gid g3"
    using distinct_ids_neq [OF d] m by blast+
  moreover have "gid g1 \<in> lineMatches line lim"
    unfolding lineMatches_def using w lim g(1)
    by (intro CollectI exI [of _ g1] exI [of _ i] exI [of _ 0]) simp
  moreover have "gid g2 \<in> lineMatches line lim"
    unfolding lineMatches_def using w lim g(2)
    by (intro CollectI exI [of _ g2] exI [of _ i] exI [of _ 1]) simp
  moreover have "gid g3 \<in> lineMatches line lim"
    unfolding lineMatches_def using w lim g(3)
    by (intro CollectI exI [of _ g3] exI [of _ i] exI [of _ 2]) simp
  ultimately show ?thesis by blast
qed

lemma lineMatches_window:
  assumes "n \<in> lineMatches line lim"
  obtains i where "window line i" and "i + 2 < lim"
  using assms unfolding lineMatches_def by blast

lemma matchedSet_cases:
  assumes "n \<in> matchedSet gs"
  obtains (row) y where "y < ROWS" and "n \<in> lineMatches (hline gs y) COLS"
        | (col) x where "x < COLS" and "n \<in> lineMatches (vline gs x) ROWS"
  using assms unfolding matchedSet_def by blast

lemma matchedSet_rowI: "y < ROWS \<Longrightarrow> lineMatches (hline gs y) COLS \<subseteq> matchedSet gs"
  unfolding matchedSet_def by blast

lemma matchedSet_colI: "x < COLS \<Longrightarrow> lineMatches (vline gs x) ROWS \<subseteq> matchedSet gs"
  unfolding matchedSet_def by blast

lemma matchedSet_three:
  assumes d: "distinct (map gid gs)" and n: "n \<in> matchedSet gs"
  shows "\<exists>a b c. a \<noteq> b \<and> a \<noteq> c \<and> b \<noteq> c \<and> {a, b, c} \<subseteq> matchedSet gs"
  using n
proof (cases rule: matchedSet_cases)
  case (row y)
  from row(2) obtain i where i: "window (hline gs y) i" "i + 2 < COLS"
    by (rule lineMatches_window)
  have "\<exists>a b c. a \<noteq> b \<and> a \<noteq> c \<and> b \<noteq> c \<and> {a, b, c} \<subseteq> lineMatches (hline gs y) COLS"
    by (rule window_three_ids [where key = gx, OF i(1) hline_SomeD d i(2)])
  then show ?thesis using matchedSet_rowI [OF row(1), of gs] by blast
next
  case (col x)
  from col(2) obtain i where i: "window (vline gs x) i" "i + 2 < ROWS"
    by (rule lineMatches_window)
  have "\<exists>a b c. a \<noteq> b \<and> a \<noteq> c \<and> b \<noteq> c \<and> {a, b, c} \<subseteq> lineMatches (vline gs x) ROWS"
    by (rule window_three_ids [where key = gy, OF i(1) vline_SomeD d i(2)])
  then show ?thesis using matchedSet_colI [OF col(1), of gs] by blast
qed

lemma findMatches_length_ge_3:
  assumes "distinct (map gid gs)" and "findMatches gs \<noteq> []"
  shows "3 \<le> length (findMatches gs)"
proof -
  from assms(2) obtain n where "n \<in> set (findMatches gs)"
    by (cases "findMatches gs") auto
  then have "n \<in> matchedSet gs" by (simp add: findMatches_set)
  from matchedSet_three [OF assms(1) this] obtain a b c
    where abc: "a \<noteq> b" "a \<noteq> c" "b \<noteq> c" "{a, b, c} \<subseteq> set (findMatches gs)"
    by (auto simp: findMatches_set)
  have "card {a, b, c} \<le> card (set (findMatches gs))"
    using abc(4) by (intro card_mono) simp_all
  moreover have "card {a, b, c} = 3" using abc(1-3) by simp
  moreover have "card (set (findMatches gs)) \<le> length (findMatches gs)"
    by (rule card_length)
  ultimately show ?thesis by simp
qed

text \<open>
  Claim C10. For a layout whose tokens have pairwise different ids (the ids come from
  \<open>gemIdCounter\<close>), the match set is empty or has at least three ids; so a round of the
  cascade that is entered with a match and a multiplier \<open>m \<ge> 0\<close> raises the score by
  at least \<open>30 * m\<close>.
\<close>

theorem findMatches_empty_or_three:
  assumes "distinct (map gid gs)"
  shows "(findMatches gs = [] \<or> 3 \<le> length (findMatches gs)) \<and>
         (findMatches gs \<noteq> [] \<and> 0 \<le> m \<and> cascadeRound draws s gs m = Inr (s', gs')
            \<longrightarrow> score s + 30 * m \<le> score s')"
proof (intro conjI impI)
  show "findMatches gs = [] \<or> 3 \<le> length (findMatches gs)"
    using findMatches_length_ge_3 [OF assms] by blast
next
  assume a: "findMatches gs \<noteq> [] \<and> 0 \<le> m \<and> cascadeRound draws s gs m = Inr (s', gs')"
  then have "3 \<le> int (length (findMatches gs))"
    using findMatches_length_ge_3 [OF assms] by simp
  then have "3 * m \<le> int (length (findMatches gs)) * m"
    using a by (intro mult_right_mono) simp_all
  moreover have "score s' = score s + int (length (findMatches gs)) * 10 * m"
    using a cascadeRound_score by blast
  ultimately show "score s + 30 * m \<le> score s'"
    by (simp add: algebra_simps)
qed

lemma layout1_distinct: "distinct (map gid layout1)"
  by code_simp

theorem findMatches_empty_or_three_witness:
  "distinct (map gid layout1) \<and> findMatches layout1 \<noteq> [] \<and> 3 \<le> length (findMatches layout1) \<and>
   (\<exists>s s' gs'. cascadeRound draws0 s layout1 1 = Inr (s', gs') \<and> score s + 30 * 1 \<le> score s')"
proof -
  let ?s = "\<lparr>gems = layout1, score = 0, selectedId = None, isProcessing = True,
    isPaused = False, gemIdCounter = 64, rngPos = 64\<rparr>"
  let ?s' = "\<lparr>gems = board1, score = 30, selectedId = None, isProcessing = True,
    isPaused = False, gemIdCounter = 67, rngPos = 67\<rparr>"
  have ne: "findMatches layout1 \<noteq> []"
    by (simp add: findMatches_layout1)
  from findMatches_empty_or_three [OF layout1_distinct, of 1 draws0 ?s ?s' board1]
    ne cascadeRound_layout1
  have "3 \<le> length (findMatches layout1)" and "score ?s + 30 * 1 \<le> score ?s'"
    by simp_all
  with layout1_distinct ne cascadeRound_layout1 show ?thesis by blast
qed

text \<open>
  Claim C8, as the code has it. \<open>findMatches\<close> has no failure path: on every gem list,
  full or not, it returns the ids of the gems in the windows of three cells that are all
  occupied by one kind, and a window with an empty cell is passed over. The layout of
  the second swap of the session has no gem at column 0, row 0, and the detection
  returns its match as for any other layout.
\<close>

lemma layout2_gap: "getGemAt 0 0 layout2 = None"
  by code_simp

theorem findMatches_gap_counterexample:
  "getGemAt 0 0 layout2 = None \<and> findMatches layout2 = [8, 9, 11]"
  by (simp add: layout2_gap findMatches_layout2)

theorem findMatches_any_layout: "set (findMatches gs) = matchedSet gs \<and> distinct (findMatches gs)"
  by (simp add: findMatches_set findMatches_distinct)

lemma lineMatchesE:
  assumes "n \<in> lineMatches line lim"
  obtains g i j where "n = gid g" and "window line i" and "i + 2 < lim" and "j \<le> 2"
    and "line (i + j) = Some g"
  using assms unfolding lineMatches_def by blast

lemma lineMatchesI:
  assumes "window line i" and "i + 2 < lim" and "j \<le> 2" and "line (i + j) = Some g"
  shows "gid g \<in> lineMatches line lim"
  using assms unfolding lineMatches_def by blast

lemma hrun_cells:
  assumes "hrun gs r c k"
  shows "\<exists>t. \<forall>x. c \<le> x \<and> x < c + k \<longrightarrow> (\<exists>g. hline gs r x = Some g \<and> gtype g = t)"
proof -
  from assms obtain g0 where g0: "hline gs r c = Some g0"
    and all: "\<forall>x \<in> set [c..<c + k]. (case hline gs r x of None \<Rightarrow> False | Some g \<Rightarrow> gtype g = gtype g0)"
    by (auto simp: hrun_def split: option.splits)
  have "\<exists>g. hline gs r x = Some g \<and> gtype g = gtype g0" if "c \<le> x \<and> x < c + k" for x
  proof -
    from that have "x \<in> set [c..<c + k]" by simp
    with all have "case hline gs r x of None \<Rightarrow> False | Some g \<Rightarrow> gtype g = gtype g0" by blast
    then show ?thesis by (cases "hline gs r x") simp_all
  qed
  then show ?thesis by blast
qed

lemma noOtherRun_row:
  assumes "noOtherRun gs r c k" and "y < ROWS" and "i + 2 < COLS" and "window (hline gs y) i"
  shows "y = r \<and> c \<le> i \<and> i + 3 \<le> c + k"
proof -
  have "y \<in> set [0..<ROWS]" "i \<in> set [0..<COLS - 2]"
    using assms(2,3) by auto
  with assms(1,4) show ?thesis
    unfolding noOtherRun_def by blast
qed

lemma noOtherRun_col:
  assumes "noOtherRun gs r c k" and "x < COLS" and "i + 2 < ROWS"
  shows "\<not> window (vline gs x) i"
proof -
  have "x \<in> set [0..<COLS]" "i \<in> set [0..<ROWS - 2]"
    using assms(2,3) by auto
  with assms(1) show ?thesis
    unfolding noOtherRun_def by blast
qed

text \<open>
  Claim C4. In a layout with pairwise different ids whose row \<open>r\<close> holds a run of \<open>k \<ge> 3\<close>
  gems of one kind in the columns \<open>c, \<dots>, c + k - 1\<close>, and in which no window of three
  cells matches anywhere else (so the run is exactly \<open>k\<close> long and there is no other
  run), the detection returns the ids of the \<open>k\<close> gems of the run and nothing else. A
  full layout is a special case: the statement does not need the cells outside the run
  to be occupied.
\<close>

theorem findMatches_single_run:
  assumes d: "distinct (map gid gs)" and r: "r < ROWS" and k: "3 \<le> k" and ck: "c + k \<le> COLS"
      and run: "hrun gs r c k" and only: "noOtherRun gs r c k"
  shows "set (findMatches gs) = {gid g | g x. c \<le> x \<and> x < c + k \<and> hline gs r x = Some g} \<and>
         length (findMatches gs) = k"
proof -
  let ?R = "{gid g | g x. c \<le> x \<and> x < c + k \<and> hline gs r x = Some g}"
  from hrun_cells [OF run] obtain t where
    cells: "\<And>x. c \<le> x \<Longrightarrow> x < c + k \<Longrightarrow> \<exists>g. hline gs r x = Some g \<and> gtype g = t"
    by blast
  have win: "window (hline gs r) i" if "c \<le> i" "i + 3 \<le> c + k" for i
  proof -
    from that obtain g1 where g1: "hline gs r i = Some g1" "gtype g1 = t"
      using cells [of i] by auto
    from that obtain g2 where g2: "hline gs r (i + 1) = Some g2" "gtype g2 = t"
      using cells [of "i + 1"] by auto
    from that obtain g3 where g3: "hline gs r (i + 2) = Some g3" "gtype g3 = t"
      using cells [of "i + 2"] by auto
    show ?thesis
      by (rule windowI [OF g1(1) g2(1) g3(1) g1(2) g2(2) g3(2)])
  qed
  have sub1: "?R \<subseteq> matchedSet gs"
  proof
    fix n assume "n \<in> ?R"
    then obtain g x where n: "n = gid g" and x: "c \<le> x" "x < c + k" and g: "hline gs r x = Some g"
      by blast
    define i where "i = (if x + 3 \<le> c + k then x else c + k - 3)"
    have i: "c \<le> i" "i + 3 \<le> c + k" "i \<le> x" "x - i \<le> 2"
      using x k by (auto simp: i_def)
    have "gid g \<in> lineMatches (hline gs r) COLS"
    proof (rule lineMatchesI [where i = i and j = "x - i"])
      show "window (hline gs r) i" using i by (intro win)
      show "i + 2 < COLS" using i ck by simp
      show "x - i \<le> 2" by (rule i)
      show "hline gs r (i + (x - i)) = Some g" using i g by simp
    qed
    then show "n \<in> matchedSet gs"
      using matchedSet_rowI [OF r, of gs] n by blast
  qed
  have sub2: "matchedSet gs \<subseteq> ?R"
  proof
    fix n assume "n \<in> matchedSet gs"
    then show "n \<in> ?R"
    proof (cases rule: matchedSet_cases)
      case (row y)
      from row(2) obtain g i j where n: "n = gid g" and w: "window (hline gs y) i"
        and i: "i + 2 < COLS" and j: "j \<le> 2" and g: "hline gs y (i + j) = Some g"
        by (rule lineMatchesE)
      from only row(1) i w have "y = r \<and> c \<le> i \<and> i + 3 \<le> c + k"
        by (rule noOtherRun_row)
      with j g n show ?thesis
        by (intro CollectI exI [of _ g] exI [of _ "i + j"]) simp
    next
      case (col x)
      from col(2) obtain i where "window (vline gs x) i" "i + 2 < ROWS"
        by (rule lineMatches_window)
      with noOtherRun_col [OF only col(1)] show ?thesis
        by blast
    qed
  qed
  have set_eq: "set (findMatches gs) = ?R"
    using sub1 sub2 by (simp add: findMatches_set)
  define f where "f x = gid (the (hline gs r x))" for x
  have R_img: "?R = f ` {c..<c + k}"
  proof
    show "?R \<subseteq> f ` {c..<c + k}"
      by (force simp: f_def)
    show "f ` {c..<c + k} \<subseteq> ?R"
    proof
      fix n assume "n \<in> f ` {c..<c + k}"
      then obtain x where x: "c \<le> x" "x < c + k" "n = f x" by auto
      with cells [of x] obtain g where "hline gs r x = Some g" by blast
      with x show "n \<in> ?R" by (auto simp: f_def)
    qed
  qed
  have inj: "inj_on f {c..<c + k}"
  proof (rule inj_onI)
    fix x x' assume xs: "x \<in> {c..<c + k}" "x' \<in> {c..<c + k}" and eq: "f x = f x'"
    from xs cells [of x] cells [of x'] obtain g g'
      where g: "hline gs r x = Some g" "hline gs r x' = Some g'" by auto
    show "x = x'"
    proof (rule ccontr)
      assume "x \<noteq> x'"
      then have "g \<noteq> g'" using hline_SomeD [OF g(1)] hline_SomeD [OF g(2)] by auto
      then have "gid g \<noteq> gid g'"
        using distinct_ids_neq [OF d] hline_SomeD [OF g(1)] hline_SomeD [OF g(2)] by blast
      with eq g show False by (simp add: f_def)
    qed
  qed
  have "length (findMatches gs) = card (set (findMatches gs))"
    using findMatches_distinct [of gs] by (simp add: distinct_card)
  also have "\<dots> = card (f ` {c..<c + k})" by (simp only: set_eq R_img)
  also have "\<dots> = k" using inj by (simp add: card_image)
  finally show ?thesis using set_eq by simp
qed

lemma layout1_run:
  "hrun layout1 0 0 3"
  "noOtherRun layout1 0 0 3"
  by code_simp+

theorem findMatches_single_run_witness:
  "distinct (map gid layout1) \<and> hrun layout1 0 0 3 \<and> noOtherRun layout1 0 0 3 \<and>
   set (findMatches layout1) = {gid g | g x. 0 \<le> x \<and> x < 0 + 3 \<and> hline layout1 0 x = Some g} \<and>
   length (findMatches layout1) = 3"
proof -
  have "(0::nat) < ROWS" "(3::nat) \<le> 3" "0 + 3 \<le> COLS"
    by (simp_all add: ROWS_def COLS_def)
  from findMatches_single_run [OF layout1_distinct this layout1_run]
  show ?thesis using layout1_distinct layout1_run by blast
qed

section \<open>Score of a cascade\<close>

lemma matchedIn_0: "matchedIn draws s gs m 0 = findMatches gs"
  by (simp add: matchedIn_def)

lemma matchedIn_Suc:
  "cascadeRound draws (s\<lparr>isProcessing := True\<rparr>) gs m = Inr (s', gs') \<Longrightarrow>
   matchedIn draws s gs m (Suc i) = matchedIn draws s' gs' (m + 1) i"
  by (simp add: matchedIn_def)

lemmas processBoard_induct = processBoard.raw_induct [rotated 1, consumes 1, case_names step]

lemma processBoard_rounds_aux:
  assumes "processBoard draws s gs m = Some r"
  shows "\<forall>s'. r = Inr s' \<longrightarrow>
    (\<exists>n sn gn. cascadeRounds draws n s gs m = Inr (sn, gn) \<and> findMatches gn = [] \<and>
       (\<forall>i<n. matchedIn draws s gs m i \<noteq> []) \<and>
       score s' = score s +
         (\<Sum>i<n. int (length (matchedIn draws s gs m i)) * 10 * (m + int i)))"
  using assms
proof (induction draws s gs m r rule: processBoard_induct)
  case (step f draws s gs m r)
  show ?case
  proof (cases "findMatches gs = []")
    case True
    with step.hyps have r: "r = Inr (s\<lparr>isProcessing := False\<rparr>)"
      by (auto simp: Let_def)
    have "cascadeRounds draws 0 s gs m = Inr (s, gs)" by simp
    with True r show ?thesis
      by (intro allI impI exI [of _ 0] exI [of _ s] exI [of _ gs]) simp
  next
    case False
    show ?thesis
    proof (intro allI impI)
      fix s' assume r: "r = Inr s'"
      from False step.hyps r obtain s5 newGems
        where rnd: "cascadeRound draws (s\<lparr>isProcessing := True\<rparr>) gs m = Inr (s5, newGems)"
          and rec: "f draws s5 newGems (m + 1) = Some (Inr s')"
        by (auto simp: Let_def split: sum.splits)
      from step.IH [OF rec] obtain n sn gn
        where n: "cascadeRounds draws n s5 newGems (m + 1) = Inr (sn, gn)" "findMatches gn = []"
          "\<forall>i<n. matchedIn draws s5 newGems (m + 1) i \<noteq> []"
          "score s' = score s5 +
             (\<Sum>i<n. int (length (matchedIn draws s5 newGems (m + 1) i)) * 10 * (m + 1 + int i))"
        by blast
      have s5: "score s5 = score s + int (length (findMatches gs)) * 10 * m"
        using cascadeRound_score [OF rnd] by simp
      have rounds: "cascadeRounds draws (Suc n) s gs m = Inr (sn, gn)"
        using rnd n(1) by simp
      have ne: "\<forall>i<Suc n. matchedIn draws s gs m i \<noteq> []"
      proof (intro allI impI)
        fix i assume "i < Suc n"
        then show "matchedIn draws s gs m i \<noteq> []"
          using False n(3) by (cases i) (simp_all add: matchedIn_0 matchedIn_Suc [OF rnd])
      qed
      have "(\<Sum>i<Suc n. int (length (matchedIn draws s gs m i)) * 10 * (m + int i)) =
            int (length (findMatches gs)) * 10 * m +
            (\<Sum>i<n. int (length (matchedIn draws s5 newGems (m + 1) i)) * 10 * (m + 1 + int i))"
        by (simp add: sum.lessThan_Suc_shift matchedIn_0 matchedIn_Suc [OF rnd] add.assoc
            del: sum.lessThan_Suc)
      with n(4) s5 have "score s' = score s +
          (\<Sum>i<Suc n. int (length (matchedIn draws s gs m i)) * 10 * (m + int i))"
        by simp
      with rounds n(2) ne
      show "\<exists>n sn gn. cascadeRounds draws n s gs m = Inr (sn, gn) \<and> findMatches gn = [] \<and>
              (\<forall>i<n. matchedIn draws s gs m i \<noteq> []) \<and>
              score s' = score s +
                (\<Sum>i<n. int (length (matchedIn draws s gs m i)) * 10 * (m + int i))"
        by blast
    qed
  qed
qed

lemma processBoard_rounds:
  assumes "processBoard draws s gs m = Some (Inr s')"
  shows "\<exists>n sn gn. cascadeRounds draws n s gs m = Inr (sn, gn) \<and> findMatches gn = [] \<and>
           (\<forall>i<n. matchedIn draws s gs m i \<noteq> []) \<and>
           score s' = score s +
             (\<Sum>i<n. int (length (matchedIn draws s gs m i)) * 10 * (m + int i))"
  using processBoard_rounds_aux [OF assms] by blast


lemma processBoard_layout1:
  "processBoard draws0
     \<lparr>gems = layout1, score = 0, selectedId = None, isProcessing = True, isPaused = False,
      gemIdCounter = 64, rngPos = 64\<rparr> layout1 1 = Some (Inr state1)"
proof -
  let ?s5 = "\<lparr>gems = board1, score = 30, selectedId = None, isProcessing = True,
    isPaused = False, gemIdCounter = 67, rngPos = 67\<rparr>"
  have "processBoard draws0 ?s5 board1 (1 + 1) = Some (Inr state1)"
    by (subst processBoard.simps) (simp add: findMatches_board1 state1_def)
  then show ?thesis
    by (subst processBoard.simps) (simp add: findMatches_layout1 cascadeRound_layout1)
qed


section \<open>Gravity keeps the order of the survivors\<close>

lemma map_snd_zip_upt: "map (\<lambda>p. f (snd p)) (zip [0..<length ys] ys) = map f ys"
  by (rule nth_equalityI) simp_all

lemma map_fst_zip_upt: "map (\<lambda>p. h (fst p)) (zip [0..<length ys] ys) = map h [0..<length ys]"
  by (rule nth_equalityI) simp_all

lemma moveExisting_gid [simp]: "map gid (moveExisting missing col) = map gid col"
  by (simp add: moveExisting_def case_prod_beta comp_def enumerate_eq_zip map_snd_zip_upt)

lemma moveExisting_gx [simp]: "map gx (moveExisting missing col) = map gx col"
  by (simp add: moveExisting_def case_prod_beta comp_def enumerate_eq_zip map_snd_zip_upt)

lemma moveExisting_gtype [simp]: "map gtype (moveExisting missing col) = map gtype col"
  by (simp add: moveExisting_def case_prod_beta comp_def enumerate_eq_zip map_snd_zip_upt)

lemma moveExisting_gy:
  "map gy (moveExisting missing col) = map (\<lambda>i. int i + missing) [0..<length col]"
  using map_fst_zip_upt [of "\<lambda>i. int i + missing" col]
  by (simp add: moveExisting_def case_prod_beta comp_def enumerate_eq_zip)

lemma length_moveExisting [simp]: "length (moveExisting missing col) = length col"
  by (simp add: moveExisting_def)

lemma column_gx: "g \<in> set (column rem x) \<Longrightarrow> gx g = int x"
  by (auto simp: column_def)

lemma column_subset: "set (column rem x) \<subseteq> set rem"
  by (auto simp: column_def)

lemma moveExisting_all:
  assumes "\<forall>g \<in> set col. gx g = x \<and> gid g < c"
  shows "\<forall>g \<in> set (moveExisting missing col). gx g = x \<and> gid g < c"
proof -
  have "set (map gx (moveExisting missing col)) = set (map gx col)"
    and "set (map gid (moveExisting missing col)) = set (map gid col)"
    by simp_all
  then have "gx ` set (moveExisting missing col) = gx ` set col"
    and "gid ` set (moveExisting missing col) = gid ` set col"
    by (simp_all only: set_map)
  with assms show ?thesis by (metis (no_types, lifting) imageE imageI)
qed

lemma filter_newColumn:
  assumes old: "\<forall>g \<in> set rem. gid g < c" and c: "c \<le> gemIdCounter s"
  shows "filter (\<lambda>g. gx g = int x \<and> gid g < c) (newColumn draws rem s x') =
           (if x' = x then moveExisting (missingOf rem x) (column rem x) else [])"
proof -
  have fresh: "filter (\<lambda>g. gx g = int x \<and> gid g < c)
      (map (freshGem draws s (int x') (missingOf rem x')) [0..<nat (missingOf rem x')]) = []"
    using c by (auto simp: filter_empty_conv freshGem_def)
  have col: "\<forall>g \<in> set (column rem x'). gx g = int x' \<and> gid g < c"
    using column_gx [of _ rem x'] column_subset [of rem x'] old by blast
  have moved: "\<forall>g \<in> set (moveExisting (missingOf rem x') (column rem x')). gx g = int x' \<and> gid g < c"
    by (rule moveExisting_all [OF col])
  show ?thesis
  proof (cases "x' = x")
    case True
    with moved have "filter (\<lambda>g. gx g = int x \<and> gid g < c)
        (moveExisting (missingOf rem x') (column rem x')) = moveExisting (missingOf rem x') (column rem x')"
      by (intro filter_True) simp
    with fresh True show ?thesis by (simp add: newColumn_def)
  next
    case False
    with moved have "filter (\<lambda>g. gx g = int x \<and> gid g < c)
        (moveExisting (missingOf rem x') (column rem x')) = []"
      by (auto simp: filter_empty_conv)
    with fresh False show ?thesis by (simp add: newColumn_def)
  qed
qed

lemma filter_newColumns:
  assumes old: "\<forall>g \<in> set rem. gid g < c" and c: "c \<le> gemIdCounter s"
      and d: "distinct xs"
  shows "filter (\<lambda>g. gx g = int x \<and> gid g < c) (newColumns draws rem s xs) =
           (if x \<in> set xs then moveExisting (missingOf rem x) (column rem x) else [])"
  using c d
proof (induction xs arbitrary: s)
  case Nil
  then show ?case by simp
next
  case (Cons x' xs)
  have "c \<le> gemIdCounter (advance (nat (missingOf rem x')) s)"
    using Cons.prems(1) by simp
  with Cons.IH [of "advance (nat (missingOf rem x')) s"] Cons.prems(2)
  have rest: "filter (\<lambda>g. gx g = int x \<and> gid g < c)
      (newColumns draws rem (advance (nat (missingOf rem x')) s) xs) =
      (if x \<in> set xs then moveExisting (missingOf rem x) (column rem x) else [])"
    by simp
  show ?case
    using Cons.prems(2) rest filter_newColumn [OF old Cons.prems(1), of x draws x']
    by auto
qed

lemma removeMatched_subset: "set (removeMatched ms gs) \<subseteq> set gs"
  by (auto simp: removeMatched_def)

lemma cascadeRound_Inr:
  assumes "cascadeRound draws s gs m = Inr (s', newGems)"
  shows "newGems = newColumns draws (removeMatched (findMatches gs) gs)
           (s\<lparr>score := score s + int (length (findMatches gs)) * 10 * m,
              gems := markMatched (findMatches gs) (gems s)\<rparr>) [0..<COLS]"
    and "\<forall>g \<in> set (removeMatched (findMatches gs) gs). 0 \<le> gx g \<and> gx g < int COLS"
    and "gems s' = newGems"
  using assms
  by (auto simp: cascadeRound_def Let_def split: sum.splits dest!: applyGravity_Inr)

text \<open>
  Claim C5. After one round (removal, gravity, refill), the gems of column \<open>x\<close> that
  were there before the round (their ids are below the id counter of the round's start)
  are the \<open>k\<close> survivors of that column, in the order of their rows before the removal,
  and they occupy the rows \<open>ROWS - k, \<dots>, ROWS - 1\<close> in that order.
\<close>

theorem gravity_keeps_order:
  assumes "cascadeRound draws s gs m = Inr (s', newGems)"
      and "\<forall>g \<in> set gs. gid g < gemIdCounter s"
      and "x < COLS"
  shows "map gid (filter (\<lambda>g. gx g = int x \<and> gid g < gemIdCounter s) newGems) =
           map gid (sort_key gy (filter (\<lambda>g. gx g = int x) (removeMatched (findMatches gs) gs))) \<and>
         map gy (filter (\<lambda>g. gx g = int x \<and> gid g < gemIdCounter s) newGems) =
           map (\<lambda>i. int ROWS
                  - int (length (filter (\<lambda>g. gx g = int x) (removeMatched (findMatches gs) gs)))
                  + int i)
             [0..<length (filter (\<lambda>g. gx g = int x) (removeMatched (findMatches gs) gs))]"
proof -
  let ?rem = "removeMatched (findMatches gs) gs"
  let ?s3 = "s\<lparr>score := score s + int (length (findMatches gs)) * 10 * m,
                gems := markMatched (findMatches gs) (gems s)\<rparr>"
  have old: "\<forall>g \<in> set ?rem. gid g < gemIdCounter s"
    using assms(2) removeMatched_subset [of "findMatches gs" gs] by blast
  have "filter (\<lambda>g. gx g = int x \<and> gid g < gemIdCounter s) newGems =
        moveExisting (missingOf ?rem x) (column ?rem x)"
    using filter_newColumns [OF old, of ?s3 "[0..<COLS]" x draws] assms(3)
    by (simp add: cascadeRound_Inr(1) [OF assms(1)])
  moreover have "length (column ?rem x) = length (filter (\<lambda>g. gx g = int x) ?rem)"
    by (simp add: column_def)
  ultimately show ?thesis
    by (simp add: moveExisting_gy missingOf_def column_def algebra_simps)
qed

lemma layout1_ids: "\<forall>g \<in> set layout1. gid g < 64"
  by code_simp

lemma layout1_column0:
  "map gid (sort_key gy (filter (\<lambda>g. gx g = int 0) (removeMatched [0, 1, 3] layout1))) =
     [8, 16, 24, 32, 40, 48, 56]"
  "length (filter (\<lambda>g. gx g = int 0) (removeMatched [0, 1, 3] layout1)) = 7"
  by code_simp+

theorem gravity_keeps_order_witness:
  "list_all (\<lambda>g. gid g < 64) layout1 \<and>
   map gid (filter (\<lambda>g. gx g = int 0 \<and> gid g < 64) board1) = [8, 16, 24, 32, 40, 48, 56] \<and>
   map gy (filter (\<lambda>g. gx g = int 0 \<and> gid g < 64) board1) =
     map (\<lambda>i. int ROWS - int 7 + int i) [0..<7]"
proof -
  let ?s = "\<lparr>gems = layout1, score = 0, selectedId = None, isProcessing = True,
    isPaused = False, gemIdCounter = 64, rngPos = 64\<rparr>"
  have ids: "\<forall>g \<in> set layout1. gid g < gemIdCounter ?s"
    using layout1_ids by simp
  have "(0::nat) < COLS" by (simp add: COLS_def)
  from gravity_keeps_order [OF cascadeRound_layout1 ids this] layout1_ids
  show ?thesis
    by (simp only: findMatches_layout1 layout1_column0 State.simps list_all_iff)
qed

section \<open>The board after a round\<close>

text \<open>
  Claim C1 fails on the code. \<open>processBoard\<close> creates the refill gems at the rows
  \<open>i - missing\<close>, above the board, and the layout that it displays and hands to the next
  detection is that list: the source's comment announces "Let's just place them
  correctly", and the \<open>setGems\<close> that follows stores \<open>newGems\<close> unchanged. In the
  session, \<open>initGame\<close> gives a full board; after the swap of the gems 2 and 3 has been
  handled, the three cells of row 0 that the match emptied hold no gem and the three
  new gems are in row \<open>-1\<close>.
\<close>

lemma board_full: "fullBoard board0" "\<not> fullBoard board1"
  by code_simp+

lemma board1_gaps:
  "getGemAt 0 0 board1 = None" "getGemAt 1 0 board1 = None" "getGemAt 2 0 board1 = None"
  "map gy (filter (\<lambda>g. 64 \<le> gid g) board1) = [- 1, - 1, - 1]"
  by code_simp+

theorem round_leaves_gaps:
  "initGame draws0 mountState = Some (Inr state0) \<and>
   handleSwap draws0 state0 2 3 = Some (Inr state1) \<and>
   getGemAt 0 0 (gems state1) = None \<and> getGemAt 1 0 (gems state1) = None \<and>
   getGemAt 2 0 (gems state1) = None \<and>
   map gy (filter (\<lambda>g. 64 \<le> gid g) (gems state1)) = [- 1, - 1, - 1]"
  using initGame_draws0 handleSwap_state0 board1_gaps
  by (simp add: state1_def)

section \<open>The initial board has no match\<close>

lemmas redraw_induct = redraw.raw_induct [rotated 1, consumes 1, case_names step]

lemma redraw_Inr_aux:
  assumes "redraw draws cond ts = Some r"
  shows "\<forall>t s. r = Inr (t, s) \<longrightarrow> cond t = Inr False"
  using assms
proof (induction draws cond ts r rule: redraw_induct)
  case (step f draws cond ts r)
  show ?case
  proof (cases "cond (fst ts)")
    case (Inl e)
    with step.hyps show ?thesis by auto
  next
    case (Inr c)
    show ?thesis
    proof (cases c)
      case True
      with Inr step.hyps have "f draws cond (getRandomType draws (snd ts)) = Some r"
        by simp
      then show ?thesis by (rule step.IH)
    next
      case False
      with Inr step.hyps have "r = Inr ts" by simp
      with Inr False show ?thesis by auto
    qed
  qed
qed

lemma redraw_Inr:
  "redraw draws cond ts = Some (Inr (t, s)) \<Longrightarrow> cond t = Inr False"
  using redraw_Inr_aux by blast

lemma createGem_Some:
  "createGem draws x y (Some t) s =
     (\<lparr>gid = gemIdCounter s, gx = x, gy = y, gtype = t, isMatch = None, isNew = Some True\<rparr>,
      s\<lparr>gemIdCounter := gemIdCounter s + 1\<rparr>)"
  by (simp add: createGem_def Let_def)

lemma placeGem_Inr:
  assumes "placeGem draws y x (gs, s) = Some (Inr (gs', s'))"
  shows "\<exists>g. gs' = gs @ [g] \<and> gx g = int x \<and> gy g = int y \<and>
           wouldMatch gs x y (gtype g) = Inr False"
proof -
  let ?r = "redraw draws (wouldMatch gs x y) (getRandomType draws s)"
  from assms obtain r where r: "?r = Some r"
    by (cases ?r) (simp_all add: placeGem_def)
  with assms obtain t s1 where ts: "r = Inr (t, s1)"
    by (cases r) (auto simp: placeGem_def)
  from assms r ts have gs': "gs' = gs @ [fst (createGem draws (int x) (int y) (Some t) s1)]"
    by (simp add: placeGem_def createGem_Some)
  have "wouldMatch gs x y t = Inr False"
    using redraw_Inr r ts by blast
  with gs' show ?thesis
    by (simp add: createGem_Some)
qed

lemma sameTypeAt_in_range:
  "0 \<le> i \<Longrightarrow> i < int (length gs) \<Longrightarrow> sameTypeAt gs i t = Inr (gtype (gs ! nat i) = t)"
  by (simp add: sameTypeAt_def typeAt_def)

lemma wouldMatch_False:
  assumes w: "wouldMatch gs x y t = Inr False" and len: "length gs = y * COLS + x" and x: "x < COLS"
  shows "\<not> (2 \<le> x \<and> gtype (gs ! (length gs - 1)) = t \<and> gtype (gs ! (length gs - 2)) = t)"
    and "\<not> (2 \<le> y \<and> gtype (gs ! (length gs - COLS)) = t \<and> gtype (gs ! (length gs - 2 * COLS)) = t)"
proof -
  let ?n = "int (length gs)"
  have h: "sameTypeAt gs (?n - 1) t = Inr (gtype (gs ! (length gs - 1)) = t)"
    "sameTypeAt gs (?n - 2) t = Inr (gtype (gs ! (length gs - 2)) = t)" if "2 \<le> x"
  proof -
    from that len have l: "2 \<le> length gs" by simp
    then have n: "nat (?n - 1) = length gs - 1" "nat (?n - 2) = length gs - 2"
      "0 \<le> ?n - 1" "?n - 1 < ?n" "0 \<le> ?n - 2" "?n - 2 < ?n" by auto
    show "sameTypeAt gs (?n - 1) t = Inr (gtype (gs ! (length gs - 1)) = t)"
      using sameTypeAt_in_range [OF n(3,4), of t] by (simp only: n(1))
    show "sameTypeAt gs (?n - 2) t = Inr (gtype (gs ! (length gs - 2)) = t)"
      using sameTypeAt_in_range [OF n(5,6), of t] by (simp only: n(2))
  qed
  have v: "sameTypeAt gs (?n - int COLS) t = Inr (gtype (gs ! (length gs - COLS)) = t)"
    "sameTypeAt gs (?n - int COLS * 2) t = Inr (gtype (gs ! (length gs - 2 * COLS)) = t)" if "2 \<le> y"
  proof -
    from that have "2 * COLS \<le> y * COLS" by (intro mult_le_mono1)
    with len have l: "2 * COLS \<le> length gs" by linarith
    moreover have "0 < COLS" using x by simp
    ultimately have n: "nat (?n - int COLS) = length gs - COLS"
      "nat (?n - int COLS * 2) = length gs - 2 * COLS"
      "0 \<le> ?n - int COLS" "?n - int COLS < ?n" "0 \<le> ?n - int COLS * 2" "?n - int COLS * 2 < ?n"
      by auto
    show "sameTypeAt gs (?n - int COLS) t = Inr (gtype (gs ! (length gs - COLS)) = t)"
      using sameTypeAt_in_range [OF n(3,4), of t] by (simp only: n(1))
    show "sameTypeAt gs (?n - int COLS * 2) t = Inr (gtype (gs ! (length gs - 2 * COLS)) = t)"
      using sameTypeAt_in_range [OF n(5,6), of t] by (simp only: n(2))
  qed
  show "\<not> (2 \<le> x \<and> gtype (gs ! (length gs - 1)) = t \<and> gtype (gs ! (length gs - 2)) = t)"
    using w h by (auto simp: wouldMatch_def Let_def orelse_def andalso_def split: if_splits)
  show "\<not> (2 \<le> y \<and> gtype (gs ! (length gs - COLS)) = t \<and> gtype (gs ! (length gs - 2 * COLS)) = t)"
    using w h v
    by (cases "2 \<le> x") (auto simp: wouldMatch_def Let_def orelse_def andalso_def split: if_splits)
qed

lemma cell_index:
  assumes "x < COLS"
  shows "(y * COLS + x) mod COLS = x" and "(y * COLS + x) div COLS = y"
  using assms by simp_all

lemma placed_step:
  assumes p: "placed (y * COLS + x) gs" and x: "x < COLS"
      and pg: "placeGem draws y x (gs, s) = Some (Inr (gs', s'))"
  shows "placed (y * COLS + Suc x) gs'"
proof -
  let ?n = "y * COLS + x"
  from placeGem_Inr [OF pg] obtain g where g: "gs' = gs @ [g]" "gx g = int x" "gy g = int y"
    and w: "wouldMatch gs x y (gtype g) = Inr False"
    by blast
  from p have len: "length gs = ?n" and old: "\<And>i. i < ?n \<Longrightarrow>
      gx (gs ! i) = int (i mod COLS) \<and> gy (gs ! i) = int (i div COLS) \<and> noRunAt gs i"
    by (simp_all add: placed_def)
  have nth_old: "gs' ! i = gs ! i" if "i < ?n" for i
    using that len g(1) by (simp add: nth_append)
  have nth_new: "gs' ! ?n = g"
    using len g(1) by (simp add: nth_append)
  have pos: "gx (gs' ! i) = int (i mod COLS) \<and> gy (gs' ! i) = int (i div COLS)" if "i < Suc ?n" for i
  proof (cases "i < ?n")
    case True
    then show ?thesis using old [of i] nth_old [of i] by simp
  next
    case False
    with that have "i = ?n" by simp
    then show ?thesis using nth_new g(2,3) cell_index [OF x, of y] by simp
  qed
  have run: "noRunAt gs' i" if "i < Suc ?n" for i
  proof (cases "i < ?n")
    case True
    have eqs: "gs' ! i = gs ! i" "gs' ! (i - 1) = gs ! (i - 1)" "gs' ! (i - 2) = gs ! (i - 2)"
      "gs' ! (i - COLS) = gs ! (i - COLS)" "gs' ! (i - 2 * COLS) = gs ! (i - 2 * COLS)"
      using True by (auto intro!: nth_old)
    from old [OF True] have "noRunAt gs i" by simp
    then show ?thesis unfolding noRunAt_def eqs .
  next
    case False
    with that have i: "i = ?n" by simp
    have h: "\<not> (2 \<le> x \<and> gtype (gs ! (?n - 1)) = gtype g \<and> gtype (gs ! (?n - 2)) = gtype g)"
      and v: "\<not> (2 \<le> y \<and> gtype (gs ! (?n - COLS)) = gtype g \<and> gtype (gs ! (?n - 2 * COLS)) = gtype g)"
      using wouldMatch_False [OF w len x] len by simp_all
    have l: "gs' ! (?n - 1) = gs ! (?n - 1)" "gs' ! (?n - 2) = gs ! (?n - 2)" if "2 \<le> x"
      using that by (auto intro!: nth_old)
    have u: "gs' ! (?n - COLS) = gs ! (?n - COLS)" "gs' ! (?n - 2 * COLS) = gs ! (?n - 2 * COLS)"
      if "2 \<le> y"
    proof -
      from that have "2 * COLS \<le> y * COLS" by (intro mult_le_mono1)
      moreover have "0 < COLS" using x by simp
      ultimately have "?n - COLS < ?n" "?n - 2 * COLS < ?n" by linarith+
      then show "gs' ! (?n - COLS) = gs ! (?n - COLS)" "gs' ! (?n - 2 * COLS) = gs ! (?n - 2 * COLS)"
        by (auto intro!: nth_old)
    qed
    show ?thesis
      unfolding noRunAt_def i cell_index [OF x] nth_new
      using h v l u by auto
  qed
  have "length gs' = Suc ?n" using len g(1) by simp
  with pos run show ?thesis
    by (simp add: placed_def)
qed

lemma forEach_inv:
  assumes "forEach body xs acc = Some (Inr acc')" and "I 0 acc"
      and "\<And>k a a'. k < length xs \<Longrightarrow> I k a \<Longrightarrow> body (xs ! k) a = Some (Inr a') \<Longrightarrow> I (Suc k) a'"
  shows "I (length xs) acc'"
  using assms
proof (induction xs arbitrary: acc I)
  case Nil
  then show ?case by simp
next
  case (Cons x xs)
  from Cons.prems(1) obtain a1 where a1: "body x acc = Some (Inr a1)"
    and rest: "forEach body xs a1 = Some (Inr acc')"
    by (auto split: option.splits sum.splits)
  have "I (Suc 0) a1"
    using Cons.prems(3) [of 0 acc a1] Cons.prems(2) a1 by simp
  moreover have "I (Suc (Suc k)) a'" if "k < length xs" "I (Suc k) a" "body (xs ! k) a = Some (Inr a')"
    for k a a'
    using Cons.prems(3) [of "Suc k" a a'] that by simp
  ultimately have "I (Suc (length xs)) acc'"
    using Cons.IH [of a1 "\<lambda>k. I (Suc k)", OF rest] by blast
  then show ?case by simp
qed

lemma fill_row:
  assumes "forEach (placeGem draws y) [0..<COLS] acc = Some (Inr acc')"
      and "placed (y * COLS) (fst acc)"
  shows "placed (Suc y * COLS) (fst acc')"
proof -
  have "placed (y * COLS + length [0..<COLS]) (fst acc')"
  proof (rule forEach_inv [OF assms(1), where I = "\<lambda>k a. placed (y * COLS + k) (fst a)"])
    show "placed (y * COLS + 0) (fst acc)" using assms(2) by simp
  next
    fix k a a'
    assume k: "k < length [0..<COLS]" and p: "placed (y * COLS + k) (fst a)"
      and b: "placeGem draws y ([0..<COLS] ! k) a = Some (Inr a')"
    from k have k': "k < COLS" by simp
    with b have "placeGem draws y k (fst a, snd a) = Some (Inr (fst a', snd a'))" by simp
    from placed_step [OF p k' this] show "placed (y * COLS + Suc k) (fst a')" .
  qed
  then show ?thesis by (simp add: add.commute)
qed

lemma fill_board:
  assumes "forEach (\<lambda>y. forEach (placeGem draws y) [0..<COLS]) [0..<ROWS] ([], s) = Some (Inr acc')"
  shows "placed (ROWS * COLS) (fst acc')"
proof -
  have "placed (length [0..<ROWS] * COLS) (fst acc')"
  proof (rule forEach_inv [OF assms, where I = "\<lambda>k a. placed (k * COLS) (fst a)"])
    show "placed (0 * COLS) (fst ([], s))" by (simp add: placed_def)
  next
    fix k a a'
    assume k: "k < length [0..<ROWS]" and p: "placed (k * COLS) (fst a)"
      and b: "forEach (placeGem draws ([0..<ROWS] ! k)) [0..<COLS] a = Some (Inr a')"
    from k b have "forEach (placeGem draws k) [0..<COLS] a = Some (Inr a')" by simp
    from fill_row [OF this p] show "placed (Suc k * COLS) (fst a')" .
  qed
  then show ?thesis by simp
qed

lemma placed_getGemAt:
  assumes p: "placed n gs" and x: "x < COLS" and i: "y * COLS + x < n"
  shows "getGemAt (int x) (int y) gs = Some (gs ! (y * COLS + x))"
proof -
  let ?i = "y * COLS + x"
  from p have len: "length gs = n"
    and pos: "\<And>j. j < n \<Longrightarrow> gx (gs ! j) = int (j mod COLS) \<and> gy (gs ! j) = int (j div COLS)"
    by (simp_all add: placed_def)
  have here: "gx (gs ! ?i) = int x \<and> gy (gs ! ?i) = int y"
    using pos [OF i] cell_index [OF x, of y] by simp
  have before: "\<not> (gx (gs ! j) = int x \<and> gy (gs ! j) = int y)" if "j < ?i" for j
  proof
    assume a: "gx (gs ! j) = int x \<and> gy (gs ! j) = int y"
    from that i have "j < n" by simp
    from pos [OF this] a have "j mod COLS = x" "j div COLS = y" by simp_all
    then have "j = ?i" using div_mult_mod_eq [of j COLS] by simp
    with that show False by simp
  qed
  show ?thesis
    unfolding getGemAt_def find_Some_iff
    using here before i len by (intro exI [of _ ?i]) simp
qed

lemma placed_noRun:
  assumes "placed n gs" and "i < n"
  shows "noRunAt gs i"
  using assms by (simp add: placed_def)

lemma placed_no_window_row:
  assumes p: "placed (ROWS * COLS) gs" and y: "y < ROWS" and i: "i + 2 < COLS"
  shows "\<not> window (hline gs y) i"
proof
  assume "window (hline gs y) i"
  then obtain g1 g2 g3 where g: "hline gs y i = Some g1" "hline gs y (i + 1) = Some g2"
    "hline gs y (i + 2) = Some g3" and t: "gtype g2 = gtype g1" "gtype g3 = gtype g1"
    by (rule windowE)
  let ?k = "y * COLS + (i + 2)"
  from y have "Suc y * COLS \<le> ROWS * COLS" by (intro mult_le_mono1) simp
  with i have k: "?k < ROWS * COLS" by simp
  then have k1: "y * COLS + (i + 1) < ROWS * COLS" and k0: "y * COLS + i < ROWS * COLS"
    by simp_all
  have "g1 = gs ! (y * COLS + i)" "g2 = gs ! (y * COLS + (i + 1))" "g3 = gs ! ?k"
    using g placed_getGemAt [OF p _ k0] placed_getGemAt [OF p _ k1] placed_getGemAt [OF p _ k] i
    by (simp_all add: hline_def)
  then have same: "gtype (gs ! (?k - 1)) = gtype (gs ! ?k)" "gtype (gs ! (?k - 2)) = gtype (gs ! ?k)"
    using t by (simp_all add: add.assoc)
  have "?k mod COLS = i + 2"
    using cell_index(1) [OF i, of y] .
  with placed_noRun [OF p k] same show False
    by (simp add: noRunAt_def)
qed

lemma placed_no_window_col:
  assumes p: "placed (ROWS * COLS) gs" and x: "x < COLS" and i: "i + 2 < ROWS"
  shows "\<not> window (vline gs x) i"
proof
  assume "window (vline gs x) i"
  then obtain g1 g2 g3 where g: "vline gs x i = Some g1" "vline gs x (i + 1) = Some g2"
    "vline gs x (i + 2) = Some g3" and t: "gtype g2 = gtype g1" "gtype g3 = gtype g1"
    by (rule windowE)
  let ?k = "(i + 2) * COLS + x"
  from i have "Suc (i + 2) * COLS \<le> ROWS * COLS" by (intro mult_le_mono1) simp
  with x have k: "?k < ROWS * COLS" by simp
  have le: "i * COLS \<le> (i + 2) * COLS" "(i + 1) * COLS \<le> (i + 2) * COLS"
    by (simp_all add: mult_le_mono1)
  with k have k1: "(i + 1) * COLS + x < ROWS * COLS" and k0: "i * COLS + x < ROWS * COLS"
    by linarith+
  have idx: "g1 = gs ! (i * COLS + x)" "g2 = gs ! ((i + 1) * COLS + x)" "g3 = gs ! ?k"
    using g placed_getGemAt [OF p x k0] placed_getGemAt [OF p x k1] placed_getGemAt [OF p x k]
    by (simp_all add: vline_def)
  have e: "?k - COLS = (i + 1) * COLS + x" "?k - 2 * COLS = i * COLS + x"
    by (simp_all add: algebra_simps)
  have "gtype (gs ! ((i + 1) * COLS + x)) = gtype (gs ! ?k)"
    "gtype (gs ! (i * COLS + x)) = gtype (gs ! ?k)"
    using t idx by metis+
  then have same: "gtype (gs ! (?k - COLS)) = gtype (gs ! ?k)"
    "gtype (gs ! (?k - 2 * COLS)) = gtype (gs ! ?k)"
    by (simp_all only: e)
  have "?k div COLS = i + 2"
    using cell_index(2) [OF x, of "i + 2"] .
  with placed_noRun [OF p k] same show False
    by (simp add: noRunAt_def)
qed

lemma placed_no_match:
  assumes "placed (ROWS * COLS) gs"
  shows "findMatches gs = []"
proof -
  have "matchedSet gs = {}"
  proof (rule ccontr)
    assume "matchedSet gs \<noteq> {}"
    then obtain n where "n \<in> matchedSet gs" by blast
    then show False
    proof (cases rule: matchedSet_cases)
      case (row y)
      from row(2) obtain i where "window (hline gs y) i" "i + 2 < COLS"
        by (rule lineMatches_window)
      with placed_no_window_row [OF assms row(1)] show False by blast
    next
      case (col x)
      from col(2) obtain i where "window (vline gs x) i" "i + 2 < ROWS"
        by (rule lineMatches_window)
      with placed_no_window_col [OF assms col(1)] show False by blast
    qed
  qed
  then have "set (findMatches gs) = {}" by (simp add: findMatches_set)
  then show ?thesis by simp
qed

lemma initGame_Inr_no_match:
  assumes "initGame draws s = Some (Inr s')"
  shows "findMatches (gems s') = []"
proof -
  let ?fill = "forEach (\<lambda>y. forEach (placeGem draws y) [0..<COLS]) [0..<ROWS] ([], s)"
  from assms obtain newGems s1 where fill: "?fill = Some (Inr (newGems, s1))"
    and s': "s' = s1\<lparr>gems := newGems, score := 0, isProcessing := False\<rparr>"
    by (auto simp: initGame_def split: option.splits sum.splits)
  from fill_board [OF fill] have "placed (ROWS * COLS) newGems" by simp
  then have "findMatches newGems = []" by (rule placed_no_match)
  with s' show ?thesis by simp
qed

section \<open>Layouts of the same shape\<close>

lemma cell_eq_iff: "cell g = cell h \<longleftrightarrow> gx g = gx h \<and> gy g = gy h \<and> gtype g = gtype h"
  by (simp add: cell_def)

lemma shape_length: "map cell gs = map cell hs \<Longrightarrow> length gs = length hs"
  by (rule map_eq_imp_length_eq)

lemma shape_nth:
  assumes "map cell gs = map cell hs" and "i < length gs"
  shows "cell (gs ! i) = cell (hs ! i)"
  using assms by (metis nth_map shape_length)

lemma getGemAt_shape:
  assumes "map cell gs = map cell hs"
  shows "(getGemAt x y gs = None \<and> getGemAt x y hs = None) \<or>
         (\<exists>i<length gs. getGemAt x y gs = Some (gs ! i) \<and> getGemAt x y hs = Some (hs ! i))"
  using assms
proof (induction gs arbitrary: hs)
  case Nil
  then show ?case by (simp add: getGemAt_def)
next
  case (Cons g gs)
  then obtain h hs' where hs: "hs = h # hs'" and c: "cell g = cell h"
    and rest: "map cell gs = map cell hs'"
    by (cases hs) auto
  show ?case
  proof (cases "gx g = x \<and> gy g = y")
    case True
    with c have "gx h = x \<and> gy h = y" by (simp add: cell_eq_iff)
    with True hs show ?thesis
      by (intro disjI2 exI [of _ 0]) (simp add: getGemAt_def)
  next
    case False
    with c have nh: "\<not> (gx h = x \<and> gy h = y)" by (simp add: cell_eq_iff)
    have tl: "getGemAt x y (g # gs) = getGemAt x y gs" "getGemAt x y hs = getGemAt x y hs'"
      using False nh hs by (auto simp: getGemAt_def)
    from Cons.IH [OF rest] show ?thesis
    proof
      assume "getGemAt x y gs = None \<and> getGemAt x y hs' = None"
      with tl show ?thesis by simp
    next
      assume "\<exists>i<length gs. getGemAt x y gs = Some (gs ! i) \<and> getGemAt x y hs' = Some (hs' ! i)"
      then obtain i where "i < length gs" "getGemAt x y gs = Some (gs ! i)"
        "getGemAt x y hs' = Some (hs' ! i)" by blast
      with tl hs show ?thesis
        by (intro disjI2 exI [of _ "Suc i"]) simp
    qed
  qed
qed

lemma getGemAt_shape_kind:
  assumes "map cell gs = map cell hs"
  shows "map_option gtype (getGemAt x y gs) = map_option gtype (getGemAt x y hs)"
proof -
  from getGemAt_shape [OF assms, of x y] show ?thesis
  proof
    assume "getGemAt x y gs = None \<and> getGemAt x y hs = None"
    then show ?thesis by simp
  next
    assume "\<exists>i<length gs. getGemAt x y gs = Some (gs ! i) \<and> getGemAt x y hs = Some (hs ! i)"
    then obtain i where i: "i < length gs" "getGemAt x y gs = Some (gs ! i)"
      "getGemAt x y hs = Some (hs ! i)" by blast
    with shape_nth [OF assms i(1)] show ?thesis by (simp add: cell_eq_iff)
  qed
qed

lemma window_cong:
  assumes "\<And>k. map_option gtype (line k) = map_option gtype (line' k)"
  shows "window line i = window line' i"
proof -
  have w: "window l i =
      (case map_option gtype (l i) of None \<Rightarrow> False | Some t1 \<Rightarrow>
        (case map_option gtype (l (i + 1)) of None \<Rightarrow> False | Some t2 \<Rightarrow>
          (case map_option gtype (l (i + 2)) of None \<Rightarrow> False | Some t3 \<Rightarrow> t1 = t2 \<and> t1 = t3)))"
    for l
    by (simp add: window_def split: option.splits)
  show ?thesis by (simp only: w assms)
qed

lemma window_shape:
  assumes "map cell gs = map cell hs"
  shows "window (hline gs y) i = window (hline hs y) i"
    and "window (vline gs x) i = window (vline hs x) i"
  by (rule window_cong, simp add: hline_def vline_def getGemAt_shape_kind [OF assms])+

lemma distinct_ids_nth:
  assumes "distinct (map gid gs)" and "i < length gs" and "g \<in> set gs" and "gid g = gid (gs ! i)"
  shows "g = gs ! i"
  using assms distinct_ids_neq [OF assms(1) assms(3), of "gs ! i"] by auto

lemma lookup_transfer:
  assumes sh: "map cell gs = map cell hs" and d: "distinct (map gid gs)"
      and i: "i < length gs" and g: "getGemAt x y gs = Some g" and id: "gid g = gid (gs ! i)"
  shows "getGemAt x y hs = Some (hs ! i)"
proof -
  from getGemAt_SomeD(1) [OF g] have "g \<in> set gs" .
  from distinct_ids_nth [OF d i this id] have gi: "g = gs ! i" .
  from getGemAt_shape [OF sh, of x y] g obtain k where k: "k < length gs"
    "getGemAt x y gs = Some (gs ! k)" "getGemAt x y hs = Some (hs ! k)"
    by auto
  from d have "distinct gs" by (simp add: distinct_map)
  with k(1,2) g gi i have "k = i"
    by (simp add: nth_eq_iff_index_eq)
  with k(3) show ?thesis by simp
qed

lemma matched_transfer:
  assumes sh: "map cell gs = map cell hs" and d: "distinct (map gid gs)"
      and i: "i < length gs" and m: "gid (gs ! i) \<in> matchedSet gs"
  shows "gid (hs ! i) \<in> matchedSet hs"
  using m
proof (cases rule: matchedSet_cases)
  case (row y)
  from row(2) obtain g i' j where id: "gid (gs ! i) = gid g" and w: "window (hline gs y) i'"
    and lim: "i' + 2 < COLS" and j: "j \<le> 2" and g: "hline gs y (i' + j) = Some g"
    by (rule lineMatchesE)
  from g have "getGemAt (int (i' + j)) (int y) gs = Some g" by (simp add: hline_def)
  from lookup_transfer [OF sh d i this id [symmetric]]
  have "hline hs y (i' + j) = Some (hs ! i)" by (simp add: hline_def)
  moreover from w have "window (hline hs y) i'" by (simp add: window_shape [OF sh])
  ultimately have "gid (hs ! i) \<in> lineMatches (hline hs y) COLS"
    using lim j by (intro lineMatchesI)
  then show ?thesis using matchedSet_rowI [OF row(1), of hs] by blast
next
  case (col x)
  from col(2) obtain g i' j where id: "gid (gs ! i) = gid g" and w: "window (vline gs x) i'"
    and lim: "i' + 2 < ROWS" and j: "j \<le> 2" and g: "vline gs x (i' + j) = Some g"
    by (rule lineMatchesE)
  from g have "getGemAt (int x) (int (i' + j)) gs = Some g" by (simp add: vline_def)
  from lookup_transfer [OF sh d i this id [symmetric]]
  have "vline hs x (i' + j) = Some (hs ! i)" by (simp add: vline_def)
  moreover from w have "window (vline hs x) i'" by (simp add: window_shape [OF sh])
  ultimately have "gid (hs ! i) \<in> lineMatches (vline hs x) ROWS"
    using lim j by (intro lineMatchesI)
  then show ?thesis using matchedSet_colI [OF col(1), of hs] by blast
qed

lemma filter_shape:
  assumes "list_all2 (\<lambda>g h. cell g = cell h \<and> p g = q h) gs hs"
  shows "map cell (filter p gs) = map cell (filter q hs)"
  using assms by (induction rule: list_all2_induct) auto

lemma removeMatched_shape:
  assumes sh: "map cell gs = map cell hs" and dg: "distinct (map gid gs)"
      and dh: "distinct (map gid hs)"
  shows "map cell (removeMatched (findMatches gs) gs) = map cell (removeMatched (findMatches hs) hs)"
proof -
  have len: "length gs = length hs" by (rule shape_length [OF sh])
  have "list_all2 (\<lambda>g h. cell g = cell h \<and>
      (gid g \<notin> set (findMatches gs)) = (gid h \<notin> set (findMatches hs))) gs hs"
  proof (rule list_all2_all_nthI [OF len])
    fix i assume i: "i < length gs"
    with len have i': "i < length hs" by simp
    have "gid (gs ! i) \<in> matchedSet gs \<longleftrightarrow> gid (hs ! i) \<in> matchedSet hs"
      using matched_transfer [OF sh dg i] matched_transfer [OF sh [symmetric] dh i'] by blast
    with shape_nth [OF sh i]
    show "cell (gs ! i) = cell (hs ! i) \<and>
      (gid (gs ! i) \<notin> set (findMatches gs)) = (gid (hs ! i) \<notin> set (findMatches hs))"
      by (simp add: findMatches_set)
  qed
  then show ?thesis unfolding removeMatched_def by (rule filter_shape)
qed

lemma insort_key_shape:
  assumes "cell a = cell b" and "map cell xs = map cell ys"
  shows "map cell (insort_key gy a xs) = map cell (insort_key gy b ys)"
  using assms(2)
proof (induction xs arbitrary: ys)
  case Nil
  then show ?case using assms(1) by simp
next
  case (Cons x xs)
  then obtain y ys' where ys: "ys = y # ys'" and c: "cell x = cell y"
    and rest: "map cell xs = map cell ys'"
    by (cases ys) auto
  from assms(1) c have "gy a = gy b" "gy x = gy y" by (simp_all add: cell_eq_iff)
  with Cons.IH [OF rest] assms(1) c rest ys show ?case by simp
qed

lemma sort_key_shape:
  assumes "map cell xs = map cell ys"
  shows "map cell (sort_key gy xs) = map cell (sort_key gy ys)"
  using assms
proof (induction xs arbitrary: ys)
  case Nil
  then show ?case by simp
next
  case (Cons x xs)
  then obtain y ys' where ys: "ys = y # ys'" and c: "cell x = cell y"
    and rest: "map cell xs = map cell ys'"
    by (cases ys) auto
  from insort_key_shape [OF c Cons.IH [OF rest]] ys show ?case by simp
qed

lemma filter_gx_shape:
  assumes "map cell xs = map cell ys"
  shows "map cell (filter (\<lambda>g. gx g = c) xs) = map cell (filter (\<lambda>g. gx g = c) ys)"
proof (rule filter_shape, rule list_all2_all_nthI)
  show "length xs = length ys" by (rule shape_length [OF assms])
next
  fix i assume "i < length xs"
  from shape_nth [OF assms this]
  show "cell (xs ! i) = cell (ys ! i) \<and> (gx (xs ! i) = c) = (gx (ys ! i) = c)"
    by (simp add: cell_eq_iff)
qed

lemma column_shape:
  assumes "map cell rem = map cell rem'"
  shows "map cell (column rem x) = map cell (column rem' x)"
  unfolding column_def by (intro sort_key_shape filter_gx_shape assms)

lemma missingOf_shape:
  assumes "map cell rem = map cell rem'"
  shows "missingOf rem x = missingOf rem' x"
  using shape_length [OF column_shape [OF assms, of x]] by (simp add: missingOf_def)

lemma nth_moveExisting:
  "i < length col \<Longrightarrow> moveExisting m col ! i = (col ! i)\<lparr>gy := int i + m, isMatch := Some False\<rparr>"
  by (simp add: moveExisting_def nth_enumerate_eq)

lemma moveExisting_shape:
  assumes "map cell col = map cell col'"
  shows "map cell (moveExisting m col) = map cell (moveExisting m col')"
proof (rule nth_equalityI)
  show "length (map cell (moveExisting m col)) = length (map cell (moveExisting m col'))"
    using shape_length [OF assms] by simp
next
  fix i assume "i < length (map cell (moveExisting m col))"
  then have i: "i < length col" by simp
  with shape_length [OF assms] have i': "i < length col'" by simp
  from shape_nth [OF assms i] i i'
  show "map cell (moveExisting m col) ! i = map cell (moveExisting m col') ! i"
    by (simp add: nth_moveExisting cell_eq_iff cell_def)
qed

lemma freshGems_shape:
  assumes const: "\<And>k. p \<le> k \<Longrightarrow> draws k = t" and "p \<le> rngPos s" and "p \<le> rngPos s'"
  shows "map cell (map (freshGem draws s x m) [0..<n]) = map cell (map (freshGem draws s' x m) [0..<n])"
  using assms by (simp add: freshGem_def cell_def)

lemma newColumn_shape:
  assumes sh: "map cell rem = map cell rem'"
      and const: "\<And>k. p \<le> k \<Longrightarrow> draws k = t" and s: "p \<le> rngPos s" and s': "p \<le> rngPos s'"
  shows "map cell (newColumn draws rem s x) = map cell (newColumn draws rem' s' x)"
  using freshGems_shape [of p draws t s s' "int x" "missingOf rem' x" "nat (missingOf rem' x)",
      OF const s s']
    moveExisting_shape [OF column_shape [OF sh, of x], of "missingOf rem' x"]
  by (simp add: newColumn_def missingOf_shape [OF sh])

lemma newColumns_shape:
  assumes sh: "map cell rem = map cell rem'"
      and const: "\<And>k. p \<le> k \<Longrightarrow> draws k = t" and s: "p \<le> rngPos s" and s': "p \<le> rngPos s'"
  shows "map cell (newColumns draws rem s xs) = map cell (newColumns draws rem' s' xs)"
  using s s'
proof (induction xs arbitrary: s s')
  case Nil
  then show ?case by simp
next
  case (Cons x xs)
  have "map cell (newColumn draws rem s x) = map cell (newColumn draws rem' s' x)"
    by (rule newColumn_shape [OF sh const Cons.prems])
  moreover have "map cell (newColumns draws rem (advance (nat (missingOf rem x)) s) xs) =
      map cell (newColumns draws rem' (advance (nat (missingOf rem' x)) s') xs)"
    using Cons.prems by (intro Cons.IH) simp_all
  ultimately show ?case by simp
qed

section \<open>Ids stay distinct\<close>

lemma freshGem_ids:
  "map gid (map (freshGem draws s x m) [0..<n]) = [gemIdCounter s..<gemIdCounter s + n]"
proof -
  have "map gid (map (freshGem draws s x m) [0..<n]) = map (\<lambda>i. i + gemIdCounter s) [0..<n]"
    by (simp add: freshGem_def add.commute)
  also have "\<dots> = [gemIdCounter s..<n + gemIdCounter s]"
    by (rule map_add_upt)
  finally show ?thesis by (simp add: add.commute)
qed

lemma newColumn_ids:
  "map gid (newColumn draws rem s x) =
     [gemIdCounter s..<gemIdCounter s + nat (missingOf rem x)] @ map gid (column rem x)"
  using freshGem_ids [of draws s "int x" "missingOf rem x" "nat (missingOf rem x)"]
  by (simp add: newColumn_def)

lemma column_set: "set (column rem x) = {g \<in> set rem. gx g = int x}"
  by (auto simp: column_def)

lemma column_distinct_ids:
  assumes "distinct (map gid rem)"
  shows "distinct (map gid (column rem x))"
proof -
  from assms have "distinct (map gid (filter (\<lambda>g. gx g = int x) rem))"
    by (rule distinct_map_filter)
  then show ?thesis
    by (simp add: column_def distinct_map)
qed

lemma newColumns_ids:
  assumes d: "distinct (map gid rem)" and old: "\<forall>g \<in> set rem. gid g < c"
      and c: "c \<le> gemIdCounter s" and xs: "distinct xs"
  shows "distinct (map gid (newColumns draws rem s xs)) \<and>
         (\<forall>i \<in> set (map gid (newColumns draws rem s xs)).
            (\<exists>g \<in> set rem. gid g = i \<and> (\<exists>x \<in> set xs. gx g = int x)) \<or>
            (gemIdCounter s \<le> i \<and>
             i < gemIdCounter s + sum_list (map (\<lambda>x. nat (missingOf rem x)) xs)))"
  using c xs
proof (induction xs arbitrary: s)
  case Nil
  then show ?case by simp
next
  case (Cons x xs)
  let ?cs = "gemIdCounter s"
  let ?m = "nat (missingOf rem x)"
  let ?t = "sum_list (map (\<lambda>x. nat (missingOf rem x)) xs)"
  let ?A = "map gid (newColumn draws rem s x)"
  let ?B = "map gid (newColumns draws rem (advance ?m s) xs)"
  from Cons.prems have x: "x \<notin> set xs" and dxs: "distinct xs" by simp_all
  have "c \<le> gemIdCounter (advance ?m s)" using Cons.prems(1) by simp
  from Cons.IH [OF this dxs]
  have dB: "distinct ?B"
    and IH: "\<forall>i \<in> set ?B.
      (\<exists>g \<in> set rem. gid g = i \<and> (\<exists>x \<in> set xs. gx g = int x)) \<or>
      (gemIdCounter (advance ?m s) \<le> i \<and> i < gemIdCounter (advance ?m s) + ?t)"
    by blast+
  have B: "(\<exists>g \<in> set rem. gid g = i \<and> (\<exists>x \<in> set xs. gx g = int x)) \<or>
      (?cs + ?m \<le> i \<and> i < ?cs + ?m + ?t)" if "i \<in> set ?B" for i
    using IH [rule_format, OF that] by simp
  have A_eq: "?A = [?cs..<?cs + ?m] @ map gid (column rem x)"
    by (rule newColumn_ids)
  have colA: "\<And>i. i \<in> set (map gid (column rem x)) \<Longrightarrow> \<exists>g \<in> set rem. gid g = i \<and> gx g = int x"
    by (auto simp: column_set)
  have col_lt: "\<And>i. i \<in> set (map gid (column rem x)) \<Longrightarrow> i < c"
    using colA old by blast
  have A: "\<And>i. i \<in> set ?A \<Longrightarrow>
      (\<exists>g \<in> set rem. gid g = i \<and> gx g = int x) \<or> (?cs \<le> i \<and> i < ?cs + ?m)"
    unfolding A_eq using colA by auto
  have dA: "distinct ?A"
    unfolding A_eq using column_distinct_ids [OF d, of x] col_lt Cons.prems(1) by fastforce
  have disj: "set ?A \<inter> set ?B = {}"
  proof (rule ccontr)
    assume "set ?A \<inter> set ?B \<noteq> {}"
    then obtain i where iA: "i \<in> set ?A" and iB: "i \<in> set ?B" by blast
    from A [OF iA] show False
    proof
      assume "\<exists>g \<in> set rem. gid g = i \<and> gx g = int x"
      then obtain g where g: "g \<in> set rem" "gid g = i" "gx g = int x" by blast
      from B [OF iB] show False
      proof
        assume "\<exists>g \<in> set rem. gid g = i \<and> (\<exists>x \<in> set xs. gx g = int x)"
        then obtain g' x' where g': "g' \<in> set rem" "gid g' = i" "x' \<in> set xs" "gx g' = int x'"
          by blast
        have "g = g'"
          using distinct_ids_neq [OF d g(1) g'(1)] g(2) g'(2) by auto
        with g(3) g'(3,4) x show False by auto
      next
        assume "?cs + ?m \<le> i \<and> i < ?cs + ?m + ?t"
        moreover have "i < c" using old g by blast
        ultimately show False using Cons.prems(1) by simp
      qed
    next
      assume fresh: "?cs \<le> i \<and> i < ?cs + ?m"
      from B [OF iB] show False
      proof
        assume "\<exists>g \<in> set rem. gid g = i \<and> (\<exists>x \<in> set xs. gx g = int x)"
        then have "i < c" using old by blast
        with fresh Cons.prems(1) show False by simp
      next
        assume "?cs + ?m \<le> i \<and> i < ?cs + ?m + ?t"
        with fresh show False by simp
      qed
    qed
  qed
  have "distinct (?A @ ?B)" using dA dB disj by simp
  moreover have "\<forall>i \<in> set (?A @ ?B).
      (\<exists>g \<in> set rem. gid g = i \<and> (\<exists>x' \<in> set (x # xs). gx g = int x')) \<or>
      (?cs \<le> i \<and> i < ?cs + (?m + ?t))"
  proof
    fix i assume "i \<in> set (?A @ ?B)"
    then consider "i \<in> set ?A" | "i \<in> set ?B" by auto
    then show "(\<exists>g \<in> set rem. gid g = i \<and> (\<exists>x' \<in> set (x # xs). gx g = int x')) \<or>
      (?cs \<le> i \<and> i < ?cs + (?m + ?t))"
    proof cases
      case 1
      from A [OF this] show ?thesis by auto
    next
      case 2
      from B [OF this] show ?thesis by auto
    qed
  qed
  ultimately show ?case by simp
qed

lemma cascadeRound_ids:
  assumes r: "cascadeRound draws s gs m = Inr (s', gs')"
      and d: "distinct (map gid gs)" and old: "\<forall>g \<in> set gs. gid g < gemIdCounter s"
  shows "distinct (map gid gs') \<and> (\<forall>g \<in> set gs'. gid g < gemIdCounter s') \<and>
         rngPos s \<le> rngPos s'"
proof -
  let ?rem = "removeMatched (findMatches gs) gs"
  let ?s3 = "s\<lparr>score := score s + int (length (findMatches gs)) * 10 * m,
                gems := markMatched (findMatches gs) (gems s)\<rparr>"
  let ?t = "sum_list (map (\<lambda>x. nat (missingOf ?rem x)) [0..<COLS])"
  from r obtain s4 where g: "applyGravity draws ?rem ?s3 = Inr (gs', s4)"
    and s': "s' = s4\<lparr>gems := gs'\<rparr>"
    by (auto simp: cascadeRound_def Let_def split: sum.splits)
  from applyGravity_Inr [OF g] have gs': "gs' = newColumns draws ?rem ?s3 [0..<COLS]"
    and s4: "s4 = advance ?t ?s3" by simp_all
  have drem: "distinct (map gid ?rem)"
    unfolding removeMatched_def using d by (rule distinct_map_filter)
  have orem: "\<forall>g \<in> set ?rem. gid g < gemIdCounter s"
    using old removeMatched_subset [of "findMatches gs" gs] by blast
  have "gemIdCounter s \<le> gemIdCounter ?s3" by simp
  from newColumns_ids [OF drem orem this, of "[0..<COLS]" draws]
  have dist: "distinct (map gid gs')"
    and ids: "\<And>i. i \<in> set (map gid gs') \<Longrightarrow>
      (\<exists>g \<in> set ?rem. gid g = i) \<or> i < gemIdCounter s + ?t"
    unfolding gs' by auto
  have "gid g < gemIdCounter s'" if "g \<in> set gs'" for g
  proof -
    from that have "gid g \<in> set (map gid gs')" by simp
    from ids [OF this] orem have "gid g < gemIdCounter s + ?t" by fastforce
    then show ?thesis by (simp add: s' s4)
  qed
  moreover have "rngPos s \<le> rngPos s'" by (simp add: s' s4)
  ultimately show ?thesis using dist by blast
qed

section \<open>A cascade that never ends\<close>

lemma draws0_late: "64 \<le> k \<Longrightarrow> draws0 k = Apple"
  by (simp add: draws0_def)

lemma findMatches_board2: "findMatches board2 = [64, 65, 66]"
  by code_simp

lemma cascadeRound_layout2:
  "cascadeRound draws0
     \<lparr>gems = layout2, score = 30, selectedId = None, isProcessing = True, isPaused = False,
      gemIdCounter = 67, rngPos = 67\<rparr> layout2 1 =
   Inr (\<lparr>gems = board2, score = 60, selectedId = None, isProcessing = True, isPaused = False,
         gemIdCounter = 70, rngPos = 70\<rparr>, board2)"
  by (simp only: cascadeRound_def findMatches_layout2 Let_def) code_simp

lemma cascadeRound_board2:
  "(case cascadeRound draws0
      \<lparr>gems = board2, score = 60, selectedId = None, isProcessing = True, isPaused = False,
       gemIdCounter = 70, rngPos = 70\<rparr> board2 2 of
      Inl e \<Rightarrow> False
    | Inr (s', gs') \<Rightarrow> map cell gs' = map cell board2)"
  by (simp only: cascadeRound_def findMatches_board2 Let_def) code_simp

lemma board2_facts:
  "distinct (map gid board2)"
  "list_all (\<lambda>g. gid g < 70) board2"
  "list_all (\<lambda>g. 0 \<le> gx g \<and> gx g < int COLS) board2"
  "gid (board2 ! 1) = 64"
  "length board2 = 64"
  by code_simp+

lemma shape_gx:
  assumes "map cell gs = map cell hs"
  shows "map gx gs = map gx hs"
proof (rule nth_equalityI)
  show "length (map gx gs) = length (map gx hs)"
    using shape_length [OF assms] by simp
next
  fix i assume "i < length (map gx gs)"
  then have i: "i < length gs" by simp
  with shape_length [OF assms] have "i < length hs" by simp
  with i shape_nth [OF assms i] show "map gx gs ! i = map gx hs ! i"
    by (simp add: cell_eq_iff)
qed

lemma cascadeRound_in_range:
  assumes "\<forall>g \<in> set gs. 0 \<le> gx g \<and> gx g < int COLS"
  shows "\<exists>s' gs'. cascadeRound draws s gs m = Inr (s', gs')"
proof -
  have "\<forall>g \<in> set (removeMatched (findMatches gs) gs). 0 \<le> gx g \<and> gx g < int COLS"
    using assms removeMatched_subset [of "findMatches gs" gs] by blast
  then show ?thesis
    by (auto simp: cascadeRound_def Let_def applyGravity_def split: prod.splits)
qed

lemma round_cycle:
  assumes sh: "map cell gs = map cell board2" and d: "distinct (map gid gs)"
      and ids: "\<forall>g \<in> set gs. gid g < gemIdCounter s" and rng: "64 \<le> rngPos s"
  shows "findMatches gs \<noteq> [] \<and>
         (\<exists>s' gs'. cascadeRound draws0 s gs m = Inr (s', gs') \<and>
            map cell gs' = map cell board2 \<and> distinct (map gid gs') \<and>
            (\<forall>g \<in> set gs'. gid g < gemIdCounter s') \<and> 64 \<le> rngPos s')"
proof -
  let ?sB = "\<lparr>gems = board2, score = 60, selectedId = None, isProcessing = True,
    isPaused = False, gemIdCounter = 70, rngPos = 70\<rparr>"
  have "64 \<in> set (findMatches board2)"
    by (simp add: findMatches_board2)
  then have "64 \<in> matchedSet board2"
    by (simp only: findMatches_set)
  then have m: "gid (board2 ! 1) \<in> matchedSet board2"
    by (simp only: board2_facts(4))
  have "1 < length board2" by (simp add: board2_facts(5))
  from matched_transfer [OF sh [symmetric] board2_facts(1) this m]
  have "gid (gs ! 1) \<in> matchedSet gs" .
  then have ne: "findMatches gs \<noteq> []"
    using findMatches_set [of gs] by auto
  have "set (map gx gs) = set (map gx board2)"
    by (simp only: shape_gx [OF sh])
  moreover have "\<forall>x \<in> set (map gx board2). 0 \<le> x \<and> x < int COLS"
    using board2_facts(3) by (simp add: list_all_iff)
  ultimately have "\<forall>g \<in> set gs. 0 \<le> gx g \<and> gx g < int COLS"
    by (metis image_eqI list.set_map)
  from cascadeRound_in_range [OF this] obtain s' gs'
    where r: "cascadeRound draws0 s gs m = Inr (s', gs')" by blast
  from cascadeRound_board2 obtain sB' gsB'
    where rB: "cascadeRound draws0 ?sB board2 2 = Inr (sB', gsB')"
      and shB: "map cell gsB' = map cell board2"
    by (auto split: sum.splits)
  have "map cell gs' = map cell gsB'"
    unfolding cascadeRound_Inr(1) [OF r] cascadeRound_Inr(1) [OF rB]
  proof (rule newColumns_shape [where p = 64 and t = Apple])
    show "map cell (removeMatched (findMatches gs) gs) =
        map cell (removeMatched (findMatches board2) board2)"
      by (rule removeMatched_shape [OF sh d board2_facts(1)])
    show "draws0 k = Apple" if "64 \<le> k" for k
      using that by (rule draws0_late)
    show "64 \<le> rngPos (s\<lparr>score := score s + int (length (findMatches gs)) * 10 * m,
        gems := markMatched (findMatches gs) (gems s)\<rparr>)"
      using rng by simp
    show "64 \<le> rngPos (?sB\<lparr>score := score ?sB + int (length (findMatches board2)) * 10 * 2,
        gems := markMatched (findMatches board2) (gems ?sB)\<rparr>)"
      by simp
  qed
  with shB have "map cell gs' = map cell board2" by simp
  moreover from cascadeRound_ids [OF r d ids] rng
  have "distinct (map gid gs')" "\<forall>g \<in> set gs'. gid g < gemIdCounter s'" "64 \<le> rngPos s'"
    by auto
  ultimately show ?thesis using ne r by blast
qed

lemma cycle_diverges_aux:
  assumes "processBoard draws s gs m = Some r"
  shows "draws = draws0 \<longrightarrow>
    \<not> (map cell gs = map cell board2 \<and> distinct (map gid gs) \<and>
       (\<forall>g \<in> set gs. gid g < gemIdCounter s) \<and> 64 \<le> rngPos s)"
  using assms
proof (induction draws s gs m r rule: processBoard_induct)
  case (step f draws s gs m r)
  show ?case
  proof (intro impI notI)
    assume dr: "draws = draws0"
      and inv: "map cell gs = map cell board2 \<and> distinct (map gid gs) \<and>
        (\<forall>g \<in> set gs. gid g < gemIdCounter s) \<and> 64 \<le> rngPos s"
    let ?s1 = "s\<lparr>isProcessing := True\<rparr>"
    from inv have "map cell gs = map cell board2" "distinct (map gid gs)"
      "\<forall>g \<in> set gs. gid g < gemIdCounter ?s1" "64 \<le> rngPos ?s1"
      by simp_all
    from round_cycle [OF this, of m] obtain s' gs'
      where ne: "findMatches gs \<noteq> []"
        and r: "cascadeRound draws0 ?s1 gs m = Inr (s', gs')"
        and inv': "map cell gs' = map cell board2 \<and> distinct (map gid gs') \<and>
          (\<forall>g \<in> set gs'. gid g < gemIdCounter s') \<and> 64 \<le> rngPos s'"
      by blast
    from step.hyps ne r dr have "f draws0 s' gs' (m + 1) = Some r"
      by (simp add: Let_def)
    from step.IH [OF this] inv' show False by blast
  qed
qed

lemma processBoard_board2:
  "processBoard draws0
     \<lparr>gems = board2, score = 60, selectedId = None, isProcessing = True, isPaused = False,
      gemIdCounter = 70, rngPos = 70\<rparr> board2 2 = None"
proof (rule ccontr)
  let ?sB = "\<lparr>gems = board2, score = 60, selectedId = None, isProcessing = True,
    isPaused = False, gemIdCounter = 70, rngPos = 70\<rparr>"
  assume "processBoard draws0 ?sB board2 2 \<noteq> None"
  then obtain r where "processBoard draws0 ?sB board2 2 = Some r" by blast
  from cycle_diverges_aux [OF this] board2_facts(1,2) show False
    by (simp add: list_all_iff)
qed

lemma processBoard_layout2:
  "processBoard draws0
     \<lparr>gems = layout2, score = 30, selectedId = None, isProcessing = True, isPaused = False,
      gemIdCounter = 67, rngPos = 67\<rparr> layout2 1 = None"
  using processBoard_board2
  by (subst processBoard.simps) (simp add: findMatches_layout2 cascadeRound_layout2)

lemma handleSwap_state1: "handleSwap draws0 state1 10 11 = None"
proof -
  have "state1\<lparr>isProcessing := True, selectedId := None, gems := layout2\<rparr> =
      \<lparr>gems = layout2, score = 30, selectedId = None, isProcessing = True, isPaused = False,
       gemIdCounter = 67, rngPos = 67\<rparr>"
    by (simp add: state1_def)
  with processBoard_layout2 show ?thesis
    by (simp add: handleSwap_def swapLayout_state1 findMatches_layout2)
qed

lemma rounds_imp_returns:
  assumes "cascadeRounds draws n s gs m = Inr (sn, gn)" and "findMatches gn = []"
  shows "\<exists>s'. processBoard draws s gs m = Some (Inr s')"
  using assms
proof (induction n arbitrary: s gs m)
  case 0
  then have "findMatches gs = []" by simp
  then show ?case by (subst processBoard.simps) simp
next
  case (Suc n)
  show ?case
  proof (cases "findMatches gs = []")
    case True
    then show ?thesis by (subst processBoard.simps) simp
  next
    case False
    from Suc.prems(1) obtain s1 gs1
      where r: "cascadeRound draws (s\<lparr>isProcessing := True\<rparr>) gs m = Inr (s1, gs1)"
        and rest: "cascadeRounds draws n s1 gs1 (m + 1) = Inr (sn, gn)"
      by (auto split: sum.splits)
    from Suc.IH [OF rest Suc.prems(2)] obtain s'
      where "processBoard draws s1 gs1 (m + 1) = Some (Inr s')" by blast
    with False r show ?thesis by (subst processBoard.simps) simp
  qed
qed

text \<open>
  Claim C9 fails on the code: \<open>processBoard\<close> has no bound on its rounds, and there are
  draws for which every round finds a match. In the session of \<open>draws0\<close>, whose refill
  draws are all apples, the second swap completes a run directly below the gap that the
  first cascade left in row 0; from then on each round removes the three gems below the
  gap, the three apples created one round earlier drop into their cells, and the next
  detection matches them.
\<close>

theorem cascade_never_returns:
  "initGame draws0 mountState = Some (Inr state0) \<and>
   handleSwap draws0 state0 2 3 = Some (Inr state1) \<and>
   swapLayout state1 10 11 = Inr layout2 \<and>
   processBoard draws0 (state1\<lparr>isProcessing := True, selectedId := None, gems := layout2\<rparr>)
     layout2 1 = None"
proof -
  have "state1\<lparr>isProcessing := True, selectedId := None, gems := layout2\<rparr> =
      \<lparr>gems = layout2, score = 30, selectedId = None, isProcessing = True, isPaused = False,
       gemIdCounter = 67, rngPos = 67\<rparr>"
    by (simp add: state1_def)
  with processBoard_layout2 initGame_draws0 handleSwap_state0 swapLayout_state1
  show ?thesis by simp
qed

text \<open>
  Claim C9, amended. \<open>processBoard\<close> returns a state exactly when, after some number of
  rounds (possibly none), the detection finds no match; nothing else ends the cascade.
\<close>

theorem processBoard_returns_iff:
  "(\<exists>s'. processBoard draws s gs m = Some (Inr s')) \<longleftrightarrow>
   (\<exists>n sn gn. cascadeRounds draws n s gs m = Inr (sn, gn) \<and> findMatches gn = [])"
proof
  assume "\<exists>s'. processBoard draws s gs m = Some (Inr s')"
  then obtain s' where "processBoard draws s gs m = Some (Inr s')" ..
  from processBoard_rounds [OF this]
  show "\<exists>n sn gn. cascadeRounds draws n s gs m = Inr (sn, gn) \<and> findMatches gn = []"
    by blast
next
  assume "\<exists>n sn gn. cascadeRounds draws n s gs m = Inr (sn, gn) \<and> findMatches gn = []"
  then show "\<exists>s'. processBoard draws s gs m = Some (Inr s')"
    using rounds_imp_returns by blast
qed

theorem processBoard_returns_iff_witness:
  "(\<exists>s'. processBoard draws0
      \<lparr>gems = layout1, score = 0, selectedId = None, isProcessing = True, isPaused = False,
       gemIdCounter = 64, rngPos = 64\<rparr> layout1 1 = Some (Inr s')) \<and>
   (\<exists>n sn gn. cascadeRounds draws0 n
      \<lparr>gems = layout1, score = 0, selectedId = None, isProcessing = True, isPaused = False,
       gemIdCounter = 64, rngPos = 64\<rparr> layout1 1 = Inr (sn, gn) \<and> findMatches gn = [])"
  using processBoard_returns_iff [of draws0 _ layout1 1] processBoard_layout1
  by blast

section \<open>The fill loop returns\<close>

lemma wouldMatch_eq:
  assumes len: "length gs = y * COLS + x" and x: "x < COLS"
  shows "wouldMatch gs x y t =
     Inr ((2 \<le> x \<and> gtype (gs ! (length gs - 1)) = t \<and> gtype (gs ! (length gs - 2)) = t) \<or>
          (2 \<le> y \<and> gtype (gs ! (length gs - COLS)) = t \<and>
             gtype (gs ! (length gs - 2 * COLS)) = t))"
proof -
  let ?n = "int (length gs)"
  have h: "sameTypeAt gs (?n - 1) t = Inr (gtype (gs ! (length gs - 1)) = t)"
    "sameTypeAt gs (?n - 2) t = Inr (gtype (gs ! (length gs - 2)) = t)" if "2 \<le> x"
  proof -
    from that len have l: "2 \<le> length gs" by simp
    then have n: "nat (?n - 1) = length gs - 1" "nat (?n - 2) = length gs - 2"
      "0 \<le> ?n - 1" "?n - 1 < ?n" "0 \<le> ?n - 2" "?n - 2 < ?n" by auto
    show "sameTypeAt gs (?n - 1) t = Inr (gtype (gs ! (length gs - 1)) = t)"
      using sameTypeAt_in_range [OF n(3,4), of t] by (simp only: n(1))
    show "sameTypeAt gs (?n - 2) t = Inr (gtype (gs ! (length gs - 2)) = t)"
      using sameTypeAt_in_range [OF n(5,6), of t] by (simp only: n(2))
  qed
  have v: "sameTypeAt gs (?n - int COLS) t = Inr (gtype (gs ! (length gs - COLS)) = t)"
    "sameTypeAt gs (?n - int COLS * 2) t = Inr (gtype (gs ! (length gs - 2 * COLS)) = t)" if "2 \<le> y"
  proof -
    from that have "2 * COLS \<le> y * COLS" by (intro mult_le_mono1)
    with len have l: "2 * COLS \<le> length gs" by linarith
    moreover have "0 < COLS" using x by simp
    ultimately have n: "nat (?n - int COLS) = length gs - COLS"
      "nat (?n - int COLS * 2) = length gs - 2 * COLS"
      "0 \<le> ?n - int COLS" "?n - int COLS < ?n" "0 \<le> ?n - int COLS * 2" "?n - int COLS * 2 < ?n"
      by auto
    show "sameTypeAt gs (?n - int COLS) t = Inr (gtype (gs ! (length gs - COLS)) = t)"
      using sameTypeAt_in_range [OF n(3,4), of t] by (simp only: n(1))
    show "sameTypeAt gs (?n - int COLS * 2) t = Inr (gtype (gs ! (length gs - 2 * COLS)) = t)"
      using sameTypeAt_in_range [OF n(5,6), of t] by (simp only: n(2))
  qed
  show ?thesis
  proof (cases "2 \<le> x")
    case True
    note hx = h [OF True]
    show ?thesis
    proof (cases "2 \<le> y")
      case True
      with \<open>2 \<le> x\<close> show ?thesis
        by (simp add: wouldMatch_def Let_def orelse_def andalso_def hx v [OF True])
    next
      case False
      with \<open>2 \<le> x\<close> show ?thesis
        by (simp add: wouldMatch_def Let_def orelse_def andalso_def hx)
    qed
  next
    case False
    show ?thesis
    proof (cases "2 \<le> y")
      case True
      with False show ?thesis
        by (simp add: wouldMatch_def Let_def orelse_def andalso_def v [OF True])
    next
      case ny: False
      with False show ?thesis
        by (simp add: wouldMatch_def Let_def orelse_def andalso_def)
    qed
  qed
qed

lemma redraw_stops:
  assumes "cond t = Inr False"
  shows "redraw draws cond (t, s) = Some (Inr (t, s))"
  using assms by (subst redraw.simps) simp

lemma redraw_returns:
  assumes tot: "\<And>t. \<exists>c. cond t = Inr c"
      and hit: "cond (draws (rngPos s + j)) = Inr False"
  shows "\<exists>r. redraw draws cond (getRandomType draws s) = Some (Inr r)"
  using hit
proof (induction j arbitrary: s)
  case 0
  then have "cond (draws (rngPos s)) = Inr False" by simp
  then show ?case
    by (simp add: getRandomType_def redraw_stops)
next
  case (Suc j)
  let ?s' = "s\<lparr>rngPos := rngPos s + 1\<rparr>"
  from tot obtain c where c: "cond (draws (rngPos s)) = Inr c" by blast
  show ?case
  proof (cases c)
    case False
    with c show ?thesis by (simp add: getRandomType_def redraw_stops)
  next
    case True
    have "cond (draws (rngPos ?s' + j)) = Inr False"
      using Suc.prems by simp
    from Suc.IH [OF this] obtain r
      where r: "redraw draws cond (getRandomType draws ?s') = Some (Inr r)" by blast
    have "redraw draws cond (getRandomType draws s) = redraw draws cond (getRandomType draws ?s')"
      using c True by (subst redraw.simps) (simp add: getRandomType_def)
    with r show ?thesis by simp
  qed
qed

lemma placeGem_returns:
  assumes fair: "\<And>n a b. \<exists>k\<ge>n. draws k \<noteq> a \<and> draws k \<noteq> b"
      and len: "length gs = y * COLS + x" and x: "x < COLS"
  shows "\<exists>gs' s'. placeGem draws y x (gs, s) = Some (Inr (gs', s'))"
proof -
  let ?a = "gtype (gs ! (length gs - 1))"
  let ?b = "gtype (gs ! (length gs - COLS))"
  from fair [of "rngPos s" ?a ?b] obtain k
    where k: "rngPos s \<le> k" "draws k \<noteq> ?a" "draws k \<noteq> ?b" by blast
  have tot: "\<exists>c. wouldMatch gs x y t = Inr c" for t
    using wouldMatch_eq [OF len x, of t] by blast
  have "wouldMatch gs x y (draws k) = Inr False"
    using wouldMatch_eq [OF len x, of "draws k"] k(2,3) by auto
  moreover have "k = rngPos s + (k - rngPos s)" using k(1) by simp
  ultimately have "wouldMatch gs x y (draws (rngPos s + (k - rngPos s))) = Inr False"
    by simp
  from redraw_returns [of "wouldMatch gs x y" draws s "k - rngPos s", OF tot this]
  obtain r where "redraw draws (wouldMatch gs x y) (getRandomType draws s) = Some (Inr r)"
    by blast
  then show ?thesis
    by (cases r) (simp add: placeGem_def createGem_Some)
qed

lemma forEach_total:
  assumes "I 0 acc"
      and "\<And>k a. k < length xs \<Longrightarrow> I k a \<Longrightarrow> \<exists>a'. body (xs ! k) a = Some (Inr a') \<and> I (Suc k) a'"
  shows "\<exists>acc'. forEach body xs acc = Some (Inr acc') \<and> I (length xs) acc'"
  using assms
proof (induction xs arbitrary: acc I)
  case Nil
  then show ?case by simp
next
  case (Cons x xs)
  from Cons.prems(2) [of 0 acc] Cons.prems(1) obtain a1
    where a1: "body x acc = Some (Inr a1)" "I (Suc 0) a1" by auto
  have "\<exists>a'. body (xs ! k) a = Some (Inr a') \<and> I (Suc (Suc k)) a'"
    if "k < length xs" "I (Suc k) a" for k a
    using Cons.prems(2) [of "Suc k" a] that by simp
  from Cons.IH [of "\<lambda>k. I (Suc k)" a1, OF a1(2) this] obtain acc'
    where "forEach body xs a1 = Some (Inr acc')" "I (Suc (length xs)) acc'" by blast
  with a1(1) show ?case by simp
qed

lemma fill_row_returns:
  assumes fair: "\<And>n a b. \<exists>k\<ge>n. draws k \<noteq> a \<and> draws k \<noteq> b"
      and p: "placed (y * COLS) (fst acc)"
  shows "\<exists>acc'. forEach (placeGem draws y) [0..<COLS] acc = Some (Inr acc') \<and>
           placed (Suc y * COLS) (fst acc')"
proof -
  have "\<exists>acc'. forEach (placeGem draws y) [0..<COLS] acc = Some (Inr acc') \<and>
      placed (y * COLS + length [0..<COLS]) (fst acc')"
  proof (rule forEach_total [where I = "\<lambda>k a. placed (y * COLS + k) (fst a)"])
    show "placed (y * COLS + 0) (fst acc)" using p by simp
  next
    fix k and a :: "Gem list \<times> State"
    assume k: "k < length [0..<COLS]" and pk: "placed (y * COLS + k) (fst a)"
    from k have k': "k < COLS" by simp
    from pk have len: "length (fst a) = y * COLS + k" by (simp add: placed_def)
    from placeGem_returns [OF fair len k', of "snd a"] obtain gs' s'
      where r: "placeGem draws y k (fst a, snd a) = Some (Inr (gs', s'))" by blast
    from placed_step [OF pk k' r] have "placed (y * COLS + Suc k) gs'" .
    with r k' show "\<exists>a'. placeGem draws y ([0..<COLS] ! k) a = Some (Inr a') \<and>
        placed (y * COLS + Suc k) (fst a')"
      by simp
  qed
  then show ?thesis by (simp add: add.commute)
qed

lemma fill_board_returns:
  assumes fair: "\<And>n a b. \<exists>k\<ge>n. draws k \<noteq> a \<and> draws k \<noteq> b"
  shows "\<exists>acc'. forEach (\<lambda>y. forEach (placeGem draws y) [0..<COLS]) [0..<ROWS] ([], s)
           = Some (Inr acc')"
proof -
  have "\<exists>acc'. forEach (\<lambda>y. forEach (placeGem draws y) [0..<COLS]) [0..<ROWS] ([], s)
      = Some (Inr acc') \<and> placed (length [0..<ROWS] * COLS) (fst acc')"
  proof (rule forEach_total [where I = "\<lambda>k a. placed (k * COLS) (fst a)"])
    show "placed (0 * COLS) (fst ([], s))" by (simp add: placed_def)
  next
    fix k and a :: "Gem list \<times> State"
    assume k: "k < length [0..<ROWS]" and pk: "placed (k * COLS) (fst a)"
    from fill_row_returns [OF fair pk] k
    show "\<exists>a'. forEach (placeGem draws ([0..<ROWS] ! k)) [0..<COLS] a = Some (Inr a') \<and>
        placed (Suc k * COLS) (fst a')"
      by simp
  qed
  then show ?thesis by blast
qed

lemma initGame_returns:
  assumes "\<And>n a b. \<exists>k\<ge>n. draws k \<noteq> a \<and> draws k \<noteq> b"
  shows "\<exists>s'. initGame draws s = Some (Inr s')"
proof -
  from fill_board_returns [OF assms, of s] obtain acc'
    where "forEach (\<lambda>y. forEach (placeGem draws y) [0..<COLS]) [0..<ROWS] ([], s)
      = Some (Inr acc')" by blast
  then show ?thesis
    by (cases acc') (simp add: initGame_def)
qed

section \<open>The second session is reachable\<close>

lemma initGame_draws1: "initGame draws1 mountState = Some (Inr stateA)"
  by code_simp


lemma draws1_three:
  "draws1 n \<noteq> draws1 (n + 3) \<and> draws1 n \<noteq> draws1 (n + 6) \<and> draws1 (n + 3) \<noteq> draws1 (n + 6)"
proof -
  define r where "r = (n div 3) mod 6"
  have q: "(n + 3) div 3 = n div 3 + 1" "(n + 6) div 3 = n div 3 + 2" by simp_all
  have m: "(n div 3 + 1) mod 6 = (r + 1) mod 6" "(n div 3 + 2) mod 6 = (r + 2) mod 6"
    unfolding r_def by (simp_all only: mod_add_left_eq)
  have e: "draws1 n = TYPES ! r" "draws1 (n + 3) = TYPES ! ((r + 1) mod 6)"
    "draws1 (n + 6) = TYPES ! ((r + 2) mod 6)"
    by (simp_all only: draws1_def q m r_def [symmetric])
  have "r < 6" unfolding r_def by simp
  then consider "r = 0" | "r = 1" | "r = 2" | "r = 3" | "r = 4" | "r = 5" by linarith
  then show ?thesis
    unfolding e by cases (simp_all add: TYPES_def)
qed

lemma draws1_fair: "\<exists>k\<ge>n. draws1 k \<noteq> a \<and> draws1 k \<noteq> b"
proof (cases "draws1 n \<noteq> a \<and> draws1 n \<noteq> b")
  case True
  then show ?thesis by (intro exI [of _ n]) simp
next
  case n0: False
  show ?thesis
  proof (cases "draws1 (n + 3) \<noteq> a \<and> draws1 (n + 3) \<noteq> b")
    case True
    then show ?thesis by (intro exI [of _ "n + 3"]) simp
  next
    case False
    with n0 draws1_three [of n] have "draws1 (n + 6) \<noteq> a \<and> draws1 (n + 6) \<noteq> b"
      by auto
    then show ?thesis by (intro exI [of _ "n + 6"]) simp
  qed
qed

section \<open>The board after \<open>initGame\<close>\<close>

text \<open>
  Claim C3. Whenever \<open>initGame\<close> returns, the detection finds no match in the layout
  that it has built. It does return, after redrawing every candidate that would complete
  a run, when the draws are fair in the sense that after every position a kind comes up
  that differs from any two given kinds (at most two kinds are refused at a cell: that
  of the two gems to the left and that of the two gems above).
\<close>

theorem initGame_no_match:
  "(\<forall>s'. initGame draws s = Some (Inr s') \<longrightarrow> findMatches (gems s') = []) \<and>
   ((\<forall>n a b. \<exists>k\<ge>n. draws k \<noteq> a \<and> draws k \<noteq> b) \<longrightarrow>
      (\<exists>s'. initGame draws s = Some (Inr s') \<and> findMatches (gems s') = []))"
proof (intro conjI allI impI)
  fix s' assume "initGame draws s = Some (Inr s')"
  then show "findMatches (gems s') = []" by (rule initGame_Inr_no_match)
next
  assume fair: "\<forall>n a b. \<exists>k\<ge>n. draws k \<noteq> a \<and> draws k \<noteq> b"
  then have "\<exists>s'. initGame draws s = Some (Inr s')"
    by (intro initGame_returns) blast
  then obtain s' where s': "initGame draws s = Some (Inr s')" ..
  from initGame_Inr_no_match [OF this] s'
  show "\<exists>s'. initGame draws s = Some (Inr s') \<and> findMatches (gems s') = []" by blast
qed

theorem initGame_no_match_witness:
  "(\<forall>n a b. \<exists>k\<ge>n. draws1 k \<noteq> a \<and> draws1 k \<noteq> b) \<and>
   initGame draws1 mountState = Some (Inr stateA) \<and> rngPos stateA = 85 \<and>
   findMatches (gems stateA) = []"
proof -
  have fair: "\<forall>n a b. \<exists>k\<ge>n. draws1 k \<noteq> a \<and> draws1 k \<noteq> b"
    using draws1_fair by blast
  with initGame_no_match [of draws1 mountState] obtain s'
    where "initGame draws1 mountState = Some (Inr s')" "findMatches (gems s') = []"
    by blast
  with initGame_draws1 have "findMatches (gems stateA) = []" by simp
  moreover have "rngPos stateA = 85" by (simp add: stateA_def)
  ultimately show ?thesis using fair initGame_draws1 by blast
qed

section \<open>A click with a selection\<close>







end
